theory Spec2Isabelle
  imports Main "HOL-Library.Word" "HOL-Library.Signed_Division"
begin

section \<open>The flat tree of flatmerkletree.go\<close>

text \<open>
  A Go \<^verbatim>\<open>[]byte\<close> is a list of bytes that may also be the nil slice: \<open>None\<close> is nil,
  \<open>Some bs\<close> a non-nil slice with contents \<open>bs\<close>. \<^verbatim>\<open>Block\<close> and \<^verbatim>\<open>TreeNode\<close> are
  both named \<^verbatim>\<open>[]byte\<close> types. Go's \<^verbatim>\<open>int\<close> is modelled by \<open>int\<close>: every integer of
  the program is a slice length or an index derived from one, far below the range of
  a 64-bit integer. Division and remainder are Go's, truncating toward zero
  (\<open>sdiv\<close>, \<open>smod\<close>).
\<close>

type_synonym byte = "8 word"

type_synonym bytes = "byte list option"

type_synonym Block = bytes

type_synonym TreeNode = bytes

text \<open>
  The digest (\<^verbatim>\<open>sha256.Sum256\<close> of the standard library) is a parameter of the model:
  a function from the bytes hashed to the digest.
\<close>

type_synonym hashfn = "byte list \<Rightarrow> byte list"

datatype error =
    ErrNilBlock
  | ErrEmptyMerkleTree
  | ErrTreeAlreadyFinalized
  | ErrTreeNotFinalized
  | Errorf string error
    \<comment> \<open>\<^verbatim>\<open>fmt.Errorf(prefix + "%v", err)\<close>: a new error, the prefix followed by the text of \<open>err\<close>\<close>
  | ErrBlockDoesNotExist "byte list"
    \<comment> \<open>\<^verbatim>\<open>fmt.Errorf("block does not exist: %v", hex.EncodeToString(block))\<close>\<close>
  | ErrInvalidProof int "byte list" "byte list" "byte list"
    \<comment> \<open>\<^verbatim>\<open>"invalid proof at index %d for block %X; got: %X, want: %X"\<close>\<close>
  | Panic
    \<comment> \<open>a run-time panic: index out of range, or a slice made with a bad length\<close>
  | ErrNoContents
    \<comment> \<open>\<^verbatim>\<open>errors.New("error: cannot make a merkle tree without any contents.")\<close>\<close>
  | StackOverflow
    \<comment> \<open>a recursion that never returns: Go aborts when the stack is exhausted\<close>

record FlatMerkleTree =
  blocks :: "Block list"
  nodes :: "TreeNode list"
  root :: TreeNode
  finalized :: bool

text \<open>The contents of a slice; nil has none. \<^verbatim>\<open>len\<close>, \<^verbatim>\<open>copy\<close>, \<^verbatim>\<open>append\<close> and
  \<^verbatim>\<open>bytes.Equal\<close> see only the contents.\<close>

fun bytes_of :: "bytes \<Rightarrow> byte list" where
  "bytes_of None = []"
| "bytes_of (Some bs) = bs"

definition bytes_Equal :: "bytes \<Rightarrow> bytes \<Rightarrow> bool" where
  "bytes_Equal a b = (bytes_of a = bytes_of b)"

text \<open>\<^verbatim>\<open>xs[i]\<close> and \<^verbatim>\<open>xs[i] = v\<close> panic out of range.\<close>

definition index :: "'a list \<Rightarrow> int \<Rightarrow> error + 'a" where
  "index xs i = (if 0 \<le> i \<and> i < int (length xs) then Inr (xs ! nat i) else Inl Panic)"

definition store :: "'a list \<Rightarrow> int \<Rightarrow> 'a \<Rightarrow> error + 'a list" where
  "store xs i v = (if 0 \<le> i \<and> i < int (length xs) then Inr (xs[nat i := v]) else Inl Panic)"

text \<open>\<^verbatim>\<open>int(math.Log2(float64(n)))\<close> for \<open>n > 0\<close>: the integer part of the binary
  logarithm. (The floating-point result is exact enough for this below \<open>2^48\<close>, more
  than any slice can hold.)\<close>

fun ilog2 :: "nat \<Rightarrow> nat" where
  "ilog2 n = (if n < 2 then 0 else Suc (ilog2 (n div 2)))"

declare ilog2.simps [simp del]

definition hashNode :: "hashfn \<Rightarrow> byte list \<Rightarrow> bool \<Rightarrow> TreeNode" where
  "hashNode H data internal = Some (H ((if internal then 1 else 0) # data))"

definition copyNode :: "TreeNode \<Rightarrow> TreeNode" where
  "copyNode node = Some (bytes_of node)"

definition NewMerkleTree :: "Block list \<Rightarrow> FlatMerkleTree" where
  "NewMerkleTree bs = \<lparr>blocks = bs, nodes = [], root = None, finalized = False\<rparr>"

definition RootHash :: "FlatMerkleTree \<Rightarrow> error + bytes" where
  "RootHash mt =
     (if \<not> finalized mt then Inl (Errorf ''invalid root hash: '' ErrTreeNotFinalized)
      else Inr (copyNode (root mt)))"

text \<open>A method with a pointer receiver returns its error (\<open>None\<close> is \<^verbatim>\<open>nil\<close>) and the
  tree as it leaves it.\<close>

definition Insert :: "Block \<Rightarrow> FlatMerkleTree \<Rightarrow> error option \<times> FlatMerkleTree" where
  "Insert block mt =
     (if block = None then (Some ErrNilBlock, mt)
      else if finalized mt then (Some ErrTreeAlreadyFinalized, mt)
      else (None, mt\<lparr>blocks := blocks mt @ [block]\<rparr>))"

text \<open>The loop of \<^verbatim>\<open>findLeaf\<close>, from position \<open>i\<close> over the blocks not yet looked at.\<close>

fun findLeaf_loop :: "Block list \<Rightarrow> Block \<Rightarrow> int \<Rightarrow> int option" where
  "findLeaf_loop [] block i = None"
| "findLeaf_loop (b # bs) block i =
     (if bytes_Equal b block then Some i else findLeaf_loop bs block (i + 1))"

definition findLeaf :: "FlatMerkleTree \<Rightarrow> Block \<Rightarrow> error + int" where
  "findLeaf mt block =
     (if block = None then Inl ErrNilBlock
      else case findLeaf_loop (blocks mt) block 0 of
             Some i \<Rightarrow> Inr (int (length (nodes mt)) - int (length (blocks mt)) + i)
           | None \<Rightarrow> Inl (ErrBlockDoesNotExist (bytes_of block)))"

definition hasChild :: "TreeNode list \<Rightarrow> int \<Rightarrow> bool" where
  "hasChild ns idx =
     (let n = int (length ns); l = 2 * idx + 1; r = 2 * idx + 2 in l < n \<or> r < n)"

text \<open>The loop of \<^verbatim>\<open>Proof\<close>: \<open>proof\<close> is the slice being filled, \<open>k\<close> the next slot.\<close>

function proof_loop ::
  "TreeNode list \<Rightarrow> int \<Rightarrow> int \<Rightarrow> TreeNode list \<Rightarrow> error + TreeNode list" where
  "proof_loop ns nodeIdx k proof =
     (if nodeIdx > 0 then
        (case (if nodeIdx smod 2 = 0 then index ns (nodeIdx - 1) else index ns (nodeIdx + 1)) of
           Inl e \<Rightarrow> Inl e
         | Inr sibling \<Rightarrow>
            (case store proof k (copyNode sibling) of
               Inl e \<Rightarrow> Inl e
             | Inr proof' \<Rightarrow> proof_loop ns ((nodeIdx - 1) sdiv 2) (k + 1) proof'))
      else Inr proof)"
  by pat_completeness auto

termination
  by (relation "measure (\<lambda>(ns, nodeIdx, k, proof). nat nodeIdx)")
     (auto simp: signed_divide_int_def sgn_if)

declare proof_loop.simps [simp del]

definition Proof :: "FlatMerkleTree \<Rightarrow> Block \<Rightarrow> error + TreeNode list" where
  "Proof mt block =
     (if block = None then Inl ErrNilBlock
      else if \<not> finalized mt then Inl ErrTreeNotFinalized
      else case findLeaf mt block of
        Inl e \<Rightarrow> Inl e
      | Inr idx \<Rightarrow>
         (if length (nodes mt) = 0 then Inl Panic
          else case proof_loop (nodes mt) idx 0
                      (replicate (ilog2 (length (nodes mt))) None) of
            Inl e \<Rightarrow> Inl e
          | Inr proof \<Rightarrow>
             (case index proof (int (length proof) - 1) of
                Inl e \<Rightarrow> Inl e
              | Inr lst \<Rightarrow>
                 if lst = None then Inr (take (length proof - 1) proof) else Inr proof)))"

text \<open>The loop of \<^verbatim>\<open>Verify\<close> over the proof chunks not yet checked; \<open>i\<close> is the
  position of the next chunk.\<close>

fun verify_loop ::
  "hashfn \<Rightarrow> TreeNode list \<Rightarrow> Block \<Rightarrow> TreeNode list \<Rightarrow> int \<Rightarrow> int \<Rightarrow> error option" where
  "verify_loop H ns block [] currNodeIdx i = None"
| "verify_loop H ns block (proofChunk # rest) currNodeIdx i =
     (let proofNodeBytes = copyNode proofChunk in
      case index ns currNodeIdx of
        Inl e \<Rightarrow> Some e
      | Inr cur \<Rightarrow>
         (let currentNodeBytes = copyNode cur;
              reconstructedNode =
                (if currNodeIdx smod 2 = 0
                 then hashNode H (bytes_of proofNodeBytes @ bytes_of currentNodeBytes) True
                 else hashNode H (bytes_of currentNodeBytes @ bytes_of proofNodeBytes) True);
              parentIdx = (currNodeIdx - 1) sdiv 2
          in case index ns parentIdx of
               Inl e \<Rightarrow> Some e
             | Inr parentNode \<Rightarrow>
                if \<not> bytes_Equal parentNode reconstructedNode
                then Some (ErrInvalidProof i (bytes_of block)
                             (bytes_of reconstructedNode) (bytes_of parentNode))
                else verify_loop H ns block rest parentIdx (i + 1)))"

definition Verify :: "hashfn \<Rightarrow> FlatMerkleTree \<Rightarrow> Block \<Rightarrow> TreeNode list \<Rightarrow> error option" where
  "Verify H mt block proof =
     (if \<not> finalized mt then Some ErrTreeNotFinalized
      else case findLeaf mt block of
        Inl e \<Rightarrow> Some e
      | Inr leafIdx \<Rightarrow> verify_loop H (nodes mt) block proof leafIdx 0)"

text \<open>The recursive \<^verbatim>\<open>finalize(idx)\<close>, on the node array it updates. With a negative
  \<open>idx\<close> the left child \<open>2 * idx + 1\<close> is negative again and \<^verbatim>\<open>hasChild\<close> holds of it,
  so the recursion never returns.\<close>

function finalize ::
  "hashfn \<Rightarrow> TreeNode list \<Rightarrow> int \<Rightarrow> error + (TreeNode list \<times> TreeNode)" where
  "finalize H ns idx =
     (if idx < 0 then Inl StackOverflow
      else if \<not> hasChild ns idx then
        (case index ns idx of Inl e \<Rightarrow> Inl e | Inr v \<Rightarrow> Inr (ns, v))
      else
        (case finalize H ns (2 * idx + 1) of
           Inl e \<Rightarrow> Inl e
         | Inr (ns1, left) \<Rightarrow>
            (case finalize H ns1 (2 * idx + 2) of
               Inl e \<Rightarrow> Inl e
             | Inr (ns2, right) \<Rightarrow>
                (case store ns2 idx (hashNode H (bytes_of left @ bytes_of right) True) of
                   Inl e \<Rightarrow> Inl e
                 | Inr ns3 \<Rightarrow>
                    (case index ns3 idx of Inl e \<Rightarrow> Inl e | Inr v \<Rightarrow> Inr (ns3, v))))))"
  by pat_completeness auto

lemma finalize_dom_length:
  "finalize_dom (H, ns, idx) \<Longrightarrow> finalize H ns idx = Inr (ns', v) \<Longrightarrow> length ns' = length ns"
proof (induction H ns idx arbitrary: ns' v rule: finalize.pinduct)
  case (1 H ns idx)
  show ?case
    using "1.prems" "1.IH" "1.hyps"
    by (auto simp: finalize.psimps store_def split: if_splits sum.splits prod.splits)
qed

termination finalize
proof (relation "measure (\<lambda>(H, ns, idx). nat (int (length ns) - idx))", goal_cases)
  case 1
  show ?case by simp
next
  case (2 H ns idx)
  then show ?case by (auto simp: hasChild_def Let_def)
next
  case (3 H ns idx x2 ns1 left)
  then have "length ns1 = length ns"
    using finalize_dom_length by metis
  with 3 show ?case by (auto simp: hasChild_def Let_def)
qed

declare finalize.simps [simp del]

text \<open>The loop of \<^verbatim>\<open>Finalize\<close> that stores the leaf digests from slot \<open>j\<close> on.\<close>

fun set_leaves :: "hashfn \<Rightarrow> Block list \<Rightarrow> TreeNode list \<Rightarrow> int \<Rightarrow> error + TreeNode list" where
  "set_leaves H [] ns j = Inr ns"
| "set_leaves H (b # bs) ns j =
     (case store ns j (hashNode H (bytes_of b) False) of
        Inl e \<Rightarrow> Inl e
      | Inr ns' \<Rightarrow> set_leaves H bs ns' (j + 1))"

text \<open>\<^verbatim>\<open>Finalize\<close>, statement by statement. Where a loop or a call could panic, the
  model returns the panic with the tree as it was before that loop or call; no such
  branch is ever taken (lemma \<open>Finalize_eq\<close> below).\<close>

definition Finalize :: "hashfn \<Rightarrow> FlatMerkleTree \<Rightarrow> error option \<times> FlatMerkleTree" where
  "Finalize H mt =
     (if length (blocks mt) = 0 then (Some (Errorf ''Failed to finalize: '' ErrEmptyMerkleTree), mt)
      else if finalized mt then (Some ErrTreeAlreadyFinalized, mt)
      else
        let mt1 = (if int (length (blocks mt)) smod 2 \<noteq> 0
                   then mt\<lparr>blocks := blocks mt @ [blocks mt ! (length (blocks mt) - 1)]\<rparr>
                   else mt);
            mt2 = mt1\<lparr>nodes := replicate (2 * length (blocks mt1) - 1) None\<rparr>;
            j = int (length (nodes mt2)) - int (length (blocks mt2))
        in case set_leaves H (blocks mt2) (nodes mt2) j of
             Inl e \<Rightarrow> (Some e, mt2)
           | Inr ns \<Rightarrow>
              (let mt3 = mt2\<lparr>nodes := ns\<rparr> in
               case finalize H (nodes mt3) 0 of
                 Inl e \<Rightarrow> (Some e, mt3)
               | Inr (ns', r) \<Rightarrow> (None, mt3\<lparr>nodes := ns', root := r, finalized := True\<rparr>)))"

section \<open>The node-graph tree of merkletree.go\<close>

text \<open>
  Nodes point to one another (children and parent), so they live in a heap: a list of
  nodes, the address of a node being its position. \<^verbatim>\<open>&Node{...}\<close> appends a node.
  A pointer is \<open>None\<close> (nil) or \<open>Some\<close> address. An item is a value of the interface
  \<^verbatim>\<open>Storable\<close>, \<open>None\<close> the nil interface; its method \<^verbatim>\<open>CalculateHash\<close> is the
  parameter \<open>calc\<close>. The field \<^verbatim>\<open>hashFunc\<close> is always \<^verbatim>\<open>sha256.New\<close>; writing bytes to a
  fresh \<^verbatim>\<open>hash.Hash\<close> and taking its \<^verbatim>\<open>Sum(nil)\<close> is the parameter \<open>hf\<close> (the \<^verbatim>\<open>Write\<close>
  of a \<^verbatim>\<open>hash.Hash\<close> never returns an error).
\<close>

record 'a Node =
  Left :: "nat option"
  Right :: "nat option"
  Parent :: "nat option"
  leaf :: bool
  dup :: bool
  Hash :: bytes
  Item :: "'a option"

record MerkleTree =
  Root :: "nat option"
  merkleRoot :: bytes
  Leaves :: "nat list"

type_synonym 'a heap = "'a Node list"

text \<open>Reading through a pointer that points to no node panics.\<close>

definition deref :: "'a heap \<Rightarrow> nat \<Rightarrow> error + 'a Node" where
  "deref h a = (if a < length h then Inr (h ! a) else Inl Panic)"

definition set_Parent :: "'a heap \<Rightarrow> nat \<Rightarrow> nat \<Rightarrow> 'a heap" where
  "set_Parent h a p = h[a := (h ! a)\<lparr>Parent := Some p\<rparr>]"

text \<open>The loop of \<^verbatim>\<open>buildIntermediate\<close> from position \<open>i\<close>: it ends with \<open>Inl n\<close> when it
  returns the node \<open>n\<close> from inside, with \<open>Inr\<close> of the new level otherwise. The new
  level, \<^verbatim>\<open>nodes\<close> in the source, is \<open>nds\<close> here. \<^verbatim>\<open>append\<close> of the two hashes reads them
  and gives their concatenation.\<close>

function buildIntermediate_loop ::
  "hashfn \<Rightarrow> 'a heap \<Rightarrow> nat list \<Rightarrow> nat \<Rightarrow> nat list \<Rightarrow> error + ('a heap \<times> (nat + nat list))" where
  "buildIntermediate_loop hf h leaves i nds =
     (if i < length leaves then
        (let left = i; right = (if i + 1 = length leaves then i else i + 1) in
         case deref h (leaves ! left) of
           Inl e \<Rightarrow> Inl e
         | Inr ln \<Rightarrow>
            (case deref h (leaves ! right) of
               Inl e \<Rightarrow> Inl e
             | Inr rn \<Rightarrow>
                (let itemHash = bytes_of (Hash ln) @ bytes_of (Hash rn);
                     n = length h;
                     h1 = h @ [\<lparr>Left = Some (leaves ! left), Right = Some (leaves ! right),
                                Parent = None, leaf = False, dup = False,
                                Hash = Some (hf itemHash), Item = None\<rparr>];
                     nds' = nds @ [n];
                     h2 = set_Parent h1 (leaves ! left) n;
                     h3 = set_Parent h2 (leaves ! right) n
                 in if length leaves = 2 then Inr (h3, Inl n)
                    else buildIntermediate_loop hf h3 leaves (i + 2) nds')))
      else Inr (h, Inr nds))"
  by pat_completeness auto

termination
  by (relation "measure (\<lambda>(hf, h, leaves, i, nds). length leaves - i)") auto

declare buildIntermediate_loop.simps [simp del]

lemma buildIntermediate_loop_length:
  "buildIntermediate_loop hf h leaves i nds = Inr (h', Inr nds') \<Longrightarrow>
   length nds' = length nds + (length leaves - i + 1) div 2"
proof (induction hf h leaves i nds rule: buildIntermediate_loop.induct)
  case (1 hf h leaves i nds)
  show ?case
  proof (cases "i < length leaves")
    case False
    with "1.prems" show ?thesis by (simp add: buildIntermediate_loop.simps[of hf h leaves i])
  next
    case True
    have "(length leaves - i + 1) div 2 = Suc ((length leaves - (i + 2) + 1) div 2)"
      using True by presburger
    with "1.prems" "1.IH" True show ?thesis
      by (auto simp: buildIntermediate_loop.simps[of hf h leaves i] Let_def
               split: sum.splits if_splits)
  qed
qed

text \<open>\<^verbatim>\<open>buildIntermediate\<close>. Called with fewer than two nodes, the loop ends without a
  return and leaves a level that is no shorter, and so does every later call: the
  recursion never returns.\<close>

function buildIntermediate :: "hashfn \<Rightarrow> 'a heap \<Rightarrow> nat list \<Rightarrow> error + ('a heap \<times> nat)" where
  "buildIntermediate hf h leaves =
     (case buildIntermediate_loop hf h leaves 0 [] of
        Inl e \<Rightarrow> Inl e
      | Inr (h', Inl n) \<Rightarrow> Inr (h', n)
      | Inr (h', Inr nds) \<Rightarrow>
          if length leaves < 2 then Inl StackOverflow else buildIntermediate hf h' nds)"
  by pat_completeness auto

termination
proof (relation "measure (\<lambda>(hf, h, leaves). length leaves)", goal_cases)
  case 1
  show ?case by simp
next
  case (2 hf h leaves x2 h' res nds)
  then have "length nds = (length leaves + 1) div 2"
    using buildIntermediate_loop_length[of hf h leaves 0 "[]" h' nds] by simp
  with 2 show ?case by simp
qed

declare buildIntermediate.simps [simp del]

text \<open>The first loop of \<^verbatim>\<open>buildTree\<close>, over the contents not yet hashed.\<close>

fun make_leaves ::
  "('a \<Rightarrow> error + bytes) \<Rightarrow> 'a heap \<Rightarrow> 'a option list \<Rightarrow> nat list \<Rightarrow> error + ('a heap \<times> nat list)" where
  "make_leaves calc h [] leaves = Inr (h, leaves)"
| "make_leaves calc h (c # cs) leaves =
     (case c of
        None \<Rightarrow> Inl Panic
      | Some item \<Rightarrow>
         (case calc item of
            Inl e \<Rightarrow> Inl e
          | Inr hash \<Rightarrow>
             make_leaves calc
               (h @ [\<lparr>Left = None, Right = None, Parent = None, leaf = True, dup = False,
                       Hash = hash, Item = c\<rparr>])
               cs (leaves @ [length h])))"

definition buildTree ::
  "('a \<Rightarrow> error + bytes) \<Rightarrow> hashfn \<Rightarrow> 'a heap \<Rightarrow> 'a option list
     \<Rightarrow> error + ('a heap \<times> nat \<times> nat list)" where
  "buildTree calc hf h content =
     (case make_leaves calc h content [] of
        Inl e \<Rightarrow> Inl e
      | Inr (h1, leaves) \<Rightarrow>
         (case (if length leaves mod 2 = 1 then
                  (case deref h1 (leaves ! (length leaves - 1)) of
                     Inl e \<Rightarrow> Inl e
                   | Inr lst \<Rightarrow>
                      Inr (h1 @ [\<lparr>Left = None, Right = None, Parent = None, leaf = True, dup = True,
                                    Hash = Hash lst, Item = Item lst\<rparr>],
                           leaves @ [length h1]))
                else Inr (h1, leaves)) of
            Inl e \<Rightarrow> Inl e
          | Inr (h2, leaves2) \<Rightarrow>
             (case buildIntermediate hf h2 leaves2 of
                Inl e \<Rightarrow> Inl e
              | Inr (h3, r) \<Rightarrow> Inr (h3, r, leaves2))))"

definition NewTree ::
  "('a \<Rightarrow> error + bytes) \<Rightarrow> hashfn \<Rightarrow> 'a option list \<Rightarrow> error + (MerkleTree \<times> 'a heap)" where
  "NewTree calc hf content =
     (if length content = 0 then Inl ErrNoContents
      else case buildTree calc hf [] content of
        Inl e \<Rightarrow> Inl e
      | Inr (h, r, leafs) \<Rightarrow>
         (case deref h r of
            Inl e \<Rightarrow> Inl e
          | Inr rn \<Rightarrow> Inr (\<lparr>Root = Some r, merkleRoot = Hash rn, Leaves = leafs\<rparr>, h)))"

definition MerkleRoot :: "MerkleTree \<Rightarrow> bytes" where
  "MerkleRoot m = merkleRoot m"

section \<open>Notions of the specification\<close>

text \<open>
  Slot \<open>j\<close> lies in the subtree of slot \<open>i\<close> when walking from \<open>j\<close> to the parent
  \<open>(j - 1) div 2\<close> reaches \<open>i\<close>. \<open>digest H ns i\<close> is the value the tree gives slot
  \<open>i\<close> of an array whose leaf slots are those of \<open>ns\<close>: the leaf itself, or the
  internal hash of the digests of the two children.
\<close>

function insub :: "nat \<Rightarrow> nat \<Rightarrow> bool" where
  "insub i j = (if j \<le> i then j = i else insub i ((j - 1) div 2))"
  by pat_completeness auto

termination
  by (relation "measure (\<lambda>(i, j). j)") auto

declare insub.simps [simp del]

function digest :: "hashfn \<Rightarrow> TreeNode list \<Rightarrow> nat \<Rightarrow> TreeNode" where
  "digest H ns i =
     (if 2 * i + 2 < length ns
      then hashNode H (bytes_of (digest H ns (2 * i + 1)) @ bytes_of (digest H ns (2 * i + 2))) True
      else ns ! i)"
  by pat_completeness auto

termination
  by (relation "measure (\<lambda>(H, ns, i). length ns - i)") auto

declare digest.simps [simp del]

text \<open>The block list and the node array that Finalize leaves behind.\<close>

definition padded :: "Block list \<Rightarrow> Block list" where
  "padded bs = (if odd (length bs) then bs @ [last bs] else bs)"

definition leaf_array :: "hashfn \<Rightarrow> Block list \<Rightarrow> TreeNode list" where
  "leaf_array H bs =
     replicate (length bs - 1) None @ map (\<lambda>b. hashNode H (bytes_of b) False) bs"

definition tree_array :: "hashfn \<Rightarrow> Block list \<Rightarrow> TreeNode list" where
  "tree_array H bs = map (digest H (leaf_array H bs)) [0..<2 * length bs - 1]"

text \<open>The root as the specification gives it, from the ordered blocks and the digest
  alone: the blocks are padded to an even count \<open>n\<close>; slot \<open>i\<close> of the \<open>2n - 1\<close> slots is
  a leaf when \<open>i \<ge> n - 1\<close> and holds \<open>H (0x00 # block)\<close> of block \<open>i - (n - 1)\<close>;
  every other slot holds \<open>H (0x01 # left @ right)\<close> of the slots \<open>2i + 1\<close> and \<open>2i + 2\<close>;
  the root is slot 0.\<close>

function slot_digest :: "hashfn \<Rightarrow> Block list \<Rightarrow> nat \<Rightarrow> byte list" where
  "slot_digest H bs i =
     (if i + 1 < length bs
      then H (1 # slot_digest H bs (2 * i + 1) @ slot_digest H bs (2 * i + 2))
      else H (0 # bytes_of (bs ! (i + 1 - length bs))))"
  by pat_completeness auto
termination
  by (relation "measure (\<lambda>(H, bs, i). length bs - i)") auto

declare slot_digest.simps [simp del]

definition merkle_root :: "hashfn \<Rightarrow> Block list \<Rightarrow> byte list" where
  "merkle_root H bs = slot_digest H (padded bs) 0"

text \<open>The position of the first block with the bytes of \<open>b\<close>.\<close>

definition first_match :: "Block list \<Rightarrow> Block \<Rightarrow> nat" where
  "first_match bs b = length (takeWhile (\<lambda>x. bytes_of x \<noteq> bytes_of b) bs)"

text \<open>The siblings met on the way from slot \<open>i\<close> up to the root: the sibling of an
  even slot is the slot before it, of an odd slot the slot after it; the parent of
  slot \<open>i\<close> is \<open>(i - 1) div 2\<close>; every entry is a copy.\<close>

function sibling_path :: "TreeNode list \<Rightarrow> nat \<Rightarrow> TreeNode list" where
  "sibling_path ns i =
     (if 0 < i
      then Some (bytes_of (ns ! (if even i then i - 1 else i + 1))) # sibling_path ns ((i - 1) div 2)
      else [])"
  by pat_completeness auto

termination
  by (relation "measure (\<lambda>(ns, i). i)") auto

declare sibling_path.simps [simp del]

text \<open>A small tree for the concrete instances: three one-byte blocks, and the
  identity in place of the digest, so that every node shows how it was built.\<close>

definition example_hash :: hashfn where
  "example_hash bs = bs"

definition example_blocks :: "Block list" where
  "example_blocks = [Some [1], Some [2], Some [3]]"

definition example_tree :: FlatMerkleTree where
  "example_tree =
     \<lparr>blocks = [Some [1], Some [2], Some [3], Some [3]],
      nodes = [Some [1, 1, 0, 1, 0, 2, 1, 0, 3, 0, 3], Some [1, 0, 1, 0, 2], Some [1, 0, 3, 0, 3],
               Some [0, 1], Some [0, 2], Some [0, 3], Some [0, 3]],
      root = Some [1, 1, 0, 1, 0, 2, 1, 0, 3, 0, 3],
      finalized = True\<rparr>"

text \<open>The trees that hold the block sequence \<open>bs\<close> before Finalize: made by
  \<^verbatim>\<open>NewMerkleTree\<close> from a first part of \<open>bs\<close>, the rest inserted one by one.\<close>

inductive built :: "Block list \<Rightarrow> FlatMerkleTree \<Rightarrow> bool" where
  new: "built bs (NewMerkleTree bs)"
| ins: "built bs mt \<Longrightarrow> Insert block mt = (None, mt') \<Longrightarrow> built (bs @ [block]) mt'"

text \<open>A node is hashed without a prefix in a heap when, as a leaf, its hash is what
  \<^verbatim>\<open>CalculateHash\<close> returns for its item, and otherwise its hash is the digest of the
  hash of its left child followed by the hash of its right child, nothing before
  them.\<close>

definition unprefixed :: "('a \<Rightarrow> error + bytes) \<Rightarrow> hashfn \<Rightarrow> 'a heap \<Rightarrow> 'a Node \<Rightarrow> bool" where
  "unprefixed calc hf h n =
     (if leaf n then (\<exists>item. Item n = Some item \<and> calc item = Inr (Hash n))
      else (\<exists>l r. Left n = Some l \<and> Right n = Some r \<and> l < length h \<and> r < length h \<and>
              Hash n = Some (hf (bytes_of (Hash (h ! l)) @ bytes_of (Hash (h ! r))))))"

definition heap_unprefixed :: "('a \<Rightarrow> error + bytes) \<Rightarrow> hashfn \<Rightarrow> 'a heap \<Rightarrow> bool" where
  "heap_unprefixed calc hf h = (\<forall>a < length h. unprefixed calc hf h (h ! a))"

text \<open>Three items whose \<^verbatim>\<open>CalculateHash\<close> is the one-byte slice of the item itself.\<close>

definition example_calc :: "byte \<Rightarrow> error + bytes" where
  "example_calc x = Inr (Some [x])"

section \<open>The digest of every slot\<close>

lemma insub_self: "insub i i"
  by (simp add: insub.simps)

lemma insub_less: "j < i \<Longrightarrow> \<not> insub i j"
  by (simp add: insub.simps)

lemma insub_zero: "insub 0 j"
  by (induction "0::nat" j rule: insub.induct) (subst insub.simps, auto)

lemma insub_le: "j \<le> i \<Longrightarrow> insub i j = (j = i)"
  by (simp add: insub.simps)

lemma insub_gt: "i < j \<Longrightarrow> insub i j = insub i ((j - 1) div 2)"
  by (subst insub.simps) simp

lemma insub_children: "insub i j = (j = i \<or> insub (2 * i + 1) j \<or> insub (2 * i + 2) j)"
proof (induction i j rule: insub.induct)
  case (1 i j)
  consider "j \<le> i" | "i < j" "j < 2 * i + 1" | "j = 2 * i + 1" | "j = 2 * i + 2" | "2 * i + 2 < j"
    by linarith
  then show ?case
  proof cases
    case 1
    then show ?thesis by (simp add: insub_le)
  next
    case 2
    then have "(j - 1) div 2 < i" by linarith
    with 2 show ?thesis by (simp add: insub_gt[of i j] insub_le)
  next
    case 3
    have "insub i (2 * i + 1)" using insub_gt[of i "2 * i + 1"] by (simp add: insub_self)
    with 3 show ?thesis by (simp add: insub_self)
  next
    case 4
    have "insub i (2 * i + 2)" using insub_gt[of i "2 * i + 2"] by (simp add: insub_self)
    with 4 show ?thesis by (simp add: insub_self)
  next
    case 5
    then have a: "\<not> j \<le> i" and b: "i < (j - 1) div 2" by linarith+
    have "insub i j = insub i ((j - 1) div 2)" using 5 by (simp add: insub_gt)
    also have "\<dots> = ((j - 1) div 2 = i \<or> insub (2 * i + 1) ((j - 1) div 2) \<or> insub (2 * i + 2) ((j - 1) div 2))"
      using "1.IH"[OF a] .
    also have "\<dots> = (j = i \<or> insub (2 * i + 1) j \<or> insub (2 * i + 2) j)"
    proof -
      have "insub (2 * i + 1) j = insub (2 * i + 1) ((j - 1) div 2)"
        using 5 by (intro insub_gt) linarith
      moreover have "insub (2 * i + 2) j = insub (2 * i + 2) ((j - 1) div 2)"
        using 5 by (intro insub_gt)
      moreover have "j \<noteq> i" "(j - 1) div 2 \<noteq> i" using 5 b by linarith+
      ultimately show ?thesis by simp
    qed
    finally show ?thesis .
  qed
qed

lemma digest_cong:
  "length ns1 = length ns \<Longrightarrow> i < length ns \<Longrightarrow>
   (\<forall>j < length ns. \<not> 2 * j + 2 < length ns \<longrightarrow> ns1 ! j = ns ! j) \<Longrightarrow>
   digest H ns1 i = digest H ns i"
proof (induction H ns i rule: digest.induct)
  case (1 H ns i)
  show ?case
  proof (cases "2 * i + 2 < length ns")
    case True
    then have "digest H ns1 (2 * i + 1) = digest H ns (2 * i + 1)"
      and "digest H ns1 (2 * i + 2) = digest H ns (2 * i + 2)"
      using 1 by auto
    then show ?thesis
      using True "1.prems"(1) by (simp add: digest.simps[of H ns1 i] digest.simps[of H ns i])
  next
    case False
    then show ?thesis
      using "1.prems" by (simp add: digest.simps[of H ns1 i] digest.simps[of H ns i])
  qed
qed

lemma hasChild_odd:
  "odd (length ns) \<Longrightarrow> hasChild ns (int i) = (2 * i + 2 < length ns)"
  unfolding hasChild_def Let_def by presburger

lemma finalize_digest:
  "odd (length ns) \<Longrightarrow> i < length ns \<Longrightarrow>
   \<exists>ns'. finalize H ns (int i) = Inr (ns', digest H ns i) \<and> length ns' = length ns \<and>
     (\<forall>j < length ns. ns' ! j = (if insub i j then digest H ns j else ns ! j))"
proof (induction "length ns - i" arbitrary: ns i rule: less_induct)
  case less
  show ?case
  proof (cases "2 * i + 2 < length ns")
    case False
    then have "\<not> hasChild ns (int i)" using less.prems by (simp add: hasChild_odd)
    then have "finalize H ns (int i) = Inr (ns, ns ! i)"
      using less.prems by (simp add: finalize.simps[of H ns "int i"] index_def)
    moreover have "digest H ns i = ns ! i" using False by (simp add: digest.simps[of H ns i])
    moreover have "\<forall>j < length ns. insub i j \<longrightarrow> digest H ns j = ns ! j"
    proof (intro allI impI)
      fix j assume "j < length ns" "insub i j"
      then have "i \<le> j" using insub_less[of j i] by (cases "j < i") auto
      then have "\<not> 2 * j + 2 < length ns" using False by linarith
      then show "digest H ns j = ns ! j" by (simp add: digest.simps[of H ns j])
    qed
    ultimately show ?thesis by auto
  next
    case True
    let ?l = "2 * i + 1" and ?r = "2 * i + 2"
    have hc: "hasChild ns (int i)" using True less.prems by (simp add: hasChild_odd)
    have "length ns - ?l < length ns - i" "?l < length ns" using True by linarith+
    from less.hyps[OF this(1) less.prems(1) this(2)]
    obtain ns1 where l1: "finalize H ns (int ?l) = Inr (ns1, digest H ns ?l)"
      and len1: "length ns1 = length ns"
      and fr1: "\<forall>j < length ns. ns1 ! j = (if insub ?l j then digest H ns j else ns ! j)"
      by blast
    have leaf1: "\<forall>j < length ns. \<not> 2 * j + 2 < length ns \<longrightarrow> ns1 ! j = ns ! j"
      using fr1 by (simp add: digest.simps[of H ns])
    have d1: "\<And>j. j < length ns \<Longrightarrow> digest H ns1 j = digest H ns j"
      using digest_cong[OF len1 _ leaf1] by blast
    have "length ns1 - ?r < length ns1 - i" "?r < length ns1" "odd (length ns1)"
      using True len1 less.prems by auto
    from less.hyps[of ns1 ?r, OF _ this(3) this(2)] this(1) len1
    obtain ns2 where l2: "finalize H ns1 (int ?r) = Inr (ns2, digest H ns1 ?r)"
      and len2: "length ns2 = length ns"
      and fr2: "\<forall>j < length ns. ns2 ! j = (if insub ?r j then digest H ns1 j else ns1 ! j)"
      by auto
    have dr: "digest H ns1 ?r = digest H ns ?r" using d1 True by simp
    let ?v = "hashNode H (bytes_of (digest H ns ?l) @ bytes_of (digest H ns ?r)) True"
    have dv: "digest H ns i = ?v" using True by (simp add: digest.simps[of H ns i])
    let ?ns3 = "ns2[i := ?v]"
    have il: "int (2 * i + 1) = 2 * int i + 1" and ir: "int (2 * i + 2) = 2 * int i + 2" by simp_all
    have "finalize H ns (int i) = Inr (?ns3, ?v)"
      using hc l1 l2 dr len2 less.prems(2)
      by (simp add: finalize.simps[of H ns "int i"] il[symmetric] ir[symmetric] store_def index_def
          del: of_nat_add of_nat_mult)
    moreover have "length ?ns3 = length ns" using len2 by simp
    moreover have "\<forall>j < length ns. ?ns3 ! j = (if insub i j then digest H ns j else ns ! j)"
    proof (intro allI impI)
      fix j assume j: "j < length ns"
      show "?ns3 ! j = (if insub i j then digest H ns j else ns ! j)"
      proof (cases "j = i")
        case True
        then show ?thesis using j len2 dv by (simp add: insub_self)
      next
        case False
        then have "?ns3 ! j = ns2 ! j" by simp
        also have "\<dots> = (if insub ?r j then digest H ns j else if insub ?l j then digest H ns j else ns ! j)"
          using fr2 fr1 d1 j by simp
        also have "\<dots> = (if insub i j then digest H ns j else ns ! j)"
          using False by (subst insub_children[of i j]) auto
        finally show ?thesis .
      qed
    qed
    ultimately show ?thesis using dv by auto
  qed
qed

section \<open>What Finalize computes\<close>

lemma set_leaves_eq:
  "k + length bs \<le> length ns \<Longrightarrow>
   set_leaves H bs ns (int k) =
     Inr (take k ns @ map (\<lambda>b. hashNode H (bytes_of b) False) bs @ drop (k + length bs) ns)"
proof (induction bs arbitrary: ns k)
  case Nil
  then show ?case by simp
next
  case (Cons b bs)
  let ?v = "hashNode H (bytes_of b) False"
  have k: "k < length ns" using Cons.prems by simp
  have "set_leaves H (b # bs) ns (int k) = set_leaves H bs (ns[k := ?v]) (int (Suc k))"
    using k by (simp add: store_def add.commute)
  also have "\<dots> = Inr (take (Suc k) (ns[k := ?v]) @ map (\<lambda>b. hashNode H (bytes_of b) False) bs
                        @ drop (Suc k + length bs) (ns[k := ?v]))"
    using Cons.prems by (intro Cons.IH) simp
  also have "take (Suc k) (ns[k := ?v]) = take k ns @ [?v]"
    using k by (simp add: take_Suc_conv_app_nth)
  also have "drop (Suc k + length bs) (ns[k := ?v]) = drop (k + length (b # bs)) ns"
    by simp
  finally show ?case by simp
qed

lemma smod2_int: "int n smod 2 = int (n mod 2)"
  by (simp add: signed_modulo_int_def sgn_if zmod_int)

lemma padded_props: "bs \<noteq> [] \<Longrightarrow> even (length (padded bs)) \<and> 2 \<le> length (padded bs)"
  by (cases bs) (auto simp: padded_def Suc_le_eq)

lemma Finalize_eq:
  "Finalize H mt =
     (if blocks mt = [] then (Some (Errorf ''Failed to finalize: '' ErrEmptyMerkleTree), mt)
      else if finalized mt then (Some ErrTreeAlreadyFinalized, mt)
      else (None, mt\<lparr>blocks := padded (blocks mt),
                      nodes := tree_array H (padded (blocks mt)),
                      root := digest H (leaf_array H (padded (blocks mt))) 0,
                      finalized := True\<rparr>))"
proof (cases "blocks mt = [] \<or> finalized mt")
  case True
  then show ?thesis by (auto simp: Finalize_def)
next
  case False
  let ?bs = "padded (blocks mt)"
  let ?n = "length ?bs"
  have n: "even ?n" "2 \<le> ?n" using padded_props False by auto
  have pad: "(if int (length (blocks mt)) smod 2 \<noteq> 0
              then mt\<lparr>blocks := blocks mt @ [blocks mt ! (length (blocks mt) - 1)]\<rparr>
              else mt) = mt\<lparr>blocks := ?bs\<rparr>"
    using False by (auto simp: padded_def smod2_int last_conv_nth)
  let ?ns0 = "replicate (2 * ?n - 1) None :: TreeNode list"
  have j: "int (length ?ns0) - int ?n = int (?n - 1)" using n by auto
  have sl: "set_leaves H ?bs ?ns0 (int (?n - 1)) = Inr (leaf_array H ?bs)"
    using n by (subst set_leaves_eq) (auto simp: leaf_array_def)
  have len: "length (leaf_array H ?bs) = 2 * ?n - 1" using n by (auto simp: leaf_array_def)
  then have "odd (length (leaf_array H ?bs))" "0 < length (leaf_array H ?bs)" using n by auto
  from finalize_digest[OF this, of H]
  obtain ns' where f: "finalize H (leaf_array H ?bs) 0 = Inr (ns', digest H (leaf_array H ?bs) 0)"
    and l': "length ns' = length (leaf_array H ?bs)"
    and v: "\<forall>j<length (leaf_array H ?bs). ns' ! j = digest H (leaf_array H ?bs) j"
    by (auto simp: insub_zero)
  have "ns' = tree_array H ?bs"
    using l' v len by (intro nth_equalityI) (auto simp: tree_array_def)
  with f have f': "finalize H (leaf_array H ?bs) 0 =
      Inr (tree_array H ?bs, digest H (leaf_array H ?bs) 0)" by simp
  have sl': "set_leaves H ?bs (replicate (2 * ?n - Suc 0) None) (int (2 * ?n - Suc 0) - int ?n)
      = Inr (leaf_array H ?bs)"
    using sl j by simp
  show ?thesis
    using False
    unfolding Finalize_def pad Let_def
    by (simp add: sl' f')
qed

lemma length_tree_array: "length (tree_array H bs) = 2 * length bs - 1"
  by (simp add: tree_array_def)

lemma length_leaf_array: "bs \<noteq> [] \<Longrightarrow> length (leaf_array H bs) = 2 * length bs - 1"
  by (cases bs) (auto simp: leaf_array_def)

lemma tree_array_nth:
  "j < 2 * length bs - 1 \<Longrightarrow> tree_array H bs ! j = digest H (leaf_array H bs) j"
  by (simp add: tree_array_def)

lemma tree_array_leaf:
  assumes "k < length bs"
  shows "tree_array H bs ! (length bs - 1 + k) = hashNode H (bytes_of (bs ! k)) False"
proof -
  have ne: "bs \<noteq> []" using assms by auto
  have "tree_array H bs ! (length bs - 1 + k) = digest H (leaf_array H bs) (length bs - 1 + k)"
    using assms by (intro tree_array_nth) linarith
  also have "\<dots> = leaf_array H bs ! (length bs - 1 + k)"
  proof -
    have "\<not> 2 * (length bs - 1 + k) + 2 < length (leaf_array H bs)"
      using assms unfolding length_leaf_array[OF ne] by (cases "length bs") simp_all
    then show ?thesis by (subst digest.simps) (simp only: if_False)
  qed
  also have "\<dots> = hashNode H (bytes_of (bs ! k)) False"
    using assms
      nth_append_length_plus[of "replicate (length bs - 1) None"
        "map (\<lambda>b. hashNode H (bytes_of b) False) bs" k]
    by (simp add: leaf_array_def)
  finally show ?thesis .
qed

lemma tree_array_internal:
  assumes "i < length bs - 1"
  shows "tree_array H bs ! i =
    hashNode H (bytes_of (tree_array H bs ! (2 * i + 1)) @ bytes_of (tree_array H bs ! (2 * i + 2))) True"
proof -
  have ne: "bs \<noteq> []" using assms by auto
  have lt: "2 * i + 2 < 2 * length bs - 1" using assms by linarith
  have "tree_array H bs ! i = digest H (leaf_array H bs) i"
    using lt by (intro tree_array_nth) linarith
  also have "\<dots> = hashNode H (bytes_of (digest H (leaf_array H bs) (2 * i + 1))
                               @ bytes_of (digest H (leaf_array H bs) (2 * i + 2))) True"
  proof -
    have "2 * i + 2 < length (leaf_array H bs)"
      using lt unfolding length_leaf_array[OF ne] .
    then show ?thesis by (subst digest.simps) (simp only: if_True)
  qed
  also have "digest H (leaf_array H bs) (2 * i + 1) = tree_array H bs ! (2 * i + 1)"
    using lt by (intro tree_array_nth[symmetric]) linarith
  also have "digest H (leaf_array H bs) (2 * i + 2) = tree_array H bs ! (2 * i + 2)"
    using lt by (intro tree_array_nth[symmetric])
  finally show ?thesis .
qed

lemma Finalize_success:
  assumes "Finalize H mt = (None, mt')"
  shows "blocks mt \<noteq> []" "\<not> finalized mt"
    "mt' = mt\<lparr>blocks := padded (blocks mt), nodes := tree_array H (padded (blocks mt)),
                root := digest H (leaf_array H (padded (blocks mt))) 0, finalized := True\<rparr>"
  using assms by (auto simp: Finalize_eq split: if_splits)

text \<open>
  Claim C2. After a successful Finalize the block list is the inserted one, padded with
  a copy of its last block when its length was odd, and has even length; the node
  array has \<open>2 * len(blocks) - 1\<close> slots; the last \<open>len(blocks)\<close> slots hold the leaf
  digests \<open>H (0x00 # block)\<close> in block order; every slot \<open>i\<close> before them holds
  \<open>H (0x01 # nodes[2i+1] @ nodes[2i+2])\<close>; the cached root is \<open>nodes[0]\<close>; and
  \<open>finalized\<close> is set. A Finalize that succeeds had at least one block.
\<close>

theorem Finalize_layout:
  assumes "Finalize H mt = (None, mt')"
  shows "blocks mt \<noteq> [] \<and>
    blocks mt' = (if odd (length (blocks mt)) then blocks mt @ [last (blocks mt)] else blocks mt) \<and>
    even (length (blocks mt')) \<and>
    length (nodes mt') = 2 * length (blocks mt') - 1 \<and>
    (\<forall>k < length (blocks mt').
       nodes mt' ! (length (nodes mt') - length (blocks mt') + k)
         = Some (H (0 # bytes_of (blocks mt' ! k)))) \<and>
    (\<forall>i < length (nodes mt') - length (blocks mt').
       nodes mt' ! i
         = Some (H (1 # bytes_of (nodes mt' ! (2 * i + 1)) @ bytes_of (nodes mt' ! (2 * i + 2))))) \<and>
    root mt' = nodes mt' ! 0 \<and>
    finalized mt'"
proof -
  note s = Finalize_success[OF assms]
  let ?bs = "padded (blocks mt)"
  have b: "blocks mt' = ?bs" and n: "nodes mt' = tree_array H ?bs"
    and r: "root mt' = digest H (leaf_array H ?bs) 0" and f: "finalized mt'"
    using s(3) by simp_all
  have pp: "even (length ?bs)" "2 \<le> length ?bs" using padded_props[OF s(1)] by auto
  have d: "length (tree_array H ?bs) - length ?bs = length ?bs - 1"
    using pp by (simp add: length_tree_array)
  have "root mt' = nodes mt' ! 0"
    using pp by (simp add: r n tree_array_nth)
  moreover have "\<forall>k < length ?bs. tree_array H ?bs ! (length ?bs - 1 + k)
         = Some (H (0 # bytes_of (?bs ! k)))"
    using tree_array_leaf[of _ ?bs H] by (simp add: hashNode_def)
  moreover have "\<forall>i < length ?bs - 1. tree_array H ?bs ! i
         = Some (H (1 # bytes_of (tree_array H ?bs ! (2 * i + 1)) @ bytes_of (tree_array H ?bs ! (2 * i + 2))))"
    using tree_array_internal[of _ ?bs H] by (simp add: hashNode_def)
  ultimately show ?thesis
    using s(1) pp f unfolding b n d
    by (simp add: length_tree_array padded_def)
qed

theorem Finalize_layout_witness:
  "Finalize example_hash (NewMerkleTree example_blocks) = (None, example_tree) \<and>
   blocks example_tree = [Some [1], Some [2], Some [3], Some [3]] \<and>
   length (nodes example_tree) = 7 \<and>
   nodes example_tree ! 5 = Some (example_hash (0 # bytes_of (blocks example_tree ! 2))) \<and>
   nodes example_tree ! 1 =
     Some (example_hash (1 # bytes_of (nodes example_tree ! 3) @ bytes_of (nodes example_tree ! 4))) \<and>
   root example_tree = nodes example_tree ! 0 \<and>
   finalized example_tree"
proof -
  have h: "Finalize example_hash (NewMerkleTree example_blocks) = (None, example_tree)"
    by code_simp
  have e: "blocks (NewMerkleTree example_blocks) = [Some [1], Some [2], Some [3]]"
    by (simp add: NewMerkleTree_def example_blocks_def)
  note t = Finalize_layout[OF h]
  from t have b: "blocks example_tree = [Some [1], Some [2], Some [3], Some [3]]"
    unfolding e by simp
  from t have n: "length (nodes example_tree) = 2 * length (blocks example_tree) - 1" by blast
  from t have l: "\<forall>k < length (blocks example_tree).
       nodes example_tree ! (length (nodes example_tree) - length (blocks example_tree) + k)
         = Some (example_hash (0 # bytes_of (blocks example_tree ! k)))" by blast
  from t have i: "\<forall>i < length (nodes example_tree) - length (blocks example_tree).
       nodes example_tree ! i
         = Some (example_hash (1 # bytes_of (nodes example_tree ! (2 * i + 1))
                    @ bytes_of (nodes example_tree ! (2 * i + 2))))" by blast
  from t have r: "root example_tree = nodes example_tree ! 0" "finalized example_tree" by blast+
  have n7: "length (nodes example_tree) = 7" using n b by simp
  have "nodes example_tree ! (7 - 4 + 2) = Some (example_hash (0 # bytes_of (blocks example_tree ! 2)))"
    using l[rule_format, of 2] b n7 by simp
  moreover have "nodes example_tree ! 1 =
     Some (example_hash (1 # bytes_of (nodes example_tree ! (2 * 1 + 1)) @ bytes_of (nodes example_tree ! (2 * 1 + 2))))"
    using i[rule_format, of 1] b n7 by simp
  ultimately show ?thesis using h b n7 r by simp
qed

section \<open>The path of a leaf\<close>

lemma sdiv2_int: "int n sdiv 2 = int (n div 2)"
  by (simp add: signed_divide_int_def sgn_if zdiv_int)

lemma pred_sdiv2_int: "0 < i \<Longrightarrow> (int i - 1) sdiv 2 = int ((i - 1) div 2)"
  using sdiv2_int[of "i - 1"] by (simp add: of_nat_diff)

lemma findLeaf_loop_eq:
  "findLeaf_loop bs b i =
     (if \<exists>x \<in> set bs. bytes_of x = bytes_of b then Some (i + int (first_match bs b)) else None)"
  by (induction bs arbitrary: i) (auto simp: first_match_def bytes_Equal_def)

lemma first_match_less:
  "\<exists>x \<in> set bs. bytes_of x = bytes_of b \<Longrightarrow> first_match bs b < length bs"
  unfolding first_match_def by (induction bs) auto

lemma first_match_hit:
  "\<exists>x \<in> set bs. bytes_of x = bytes_of b \<Longrightarrow> bytes_of (bs ! first_match bs b) = bytes_of b"
  unfolding first_match_def by (induction bs) auto

lemma first_match_earliest:
  "k < first_match bs b \<Longrightarrow> bytes_of (bs ! k) \<noteq> bytes_of b"
  unfolding first_match_def
  by (metis (mono_tags, lifting) nth_length_takeWhile nth_mem set_takeWhileD takeWhile_nth)

lemma first_match_padded:
  "\<exists>x \<in> set bs. bytes_of x = bytes_of b \<Longrightarrow> first_match (padded bs) b = first_match bs b"
  unfolding first_match_def padded_def by (auto simp: takeWhile_append1)

lemma set_padded: "bs \<noteq> [] \<Longrightarrow> set (padded bs) = set bs"
  by (auto simp: padded_def)

lemma length_sibling_path: "length (sibling_path ns i) = ilog2 (i + 1)"
proof (induction ns i rule: sibling_path.induct)
  case (1 ns i)
  show ?case
  proof (cases "0 < i")
    case True
    then have a: "(i - 1) div 2 + 1 = (i + 1) div 2" by presburger
    have "ilog2 (i + 1) = Suc (ilog2 ((i + 1) div 2))"
      using True by (subst ilog2.simps) simp
    moreover have "length (sibling_path ns i) = Suc (length (sibling_path ns ((i - 1) div 2)))"
      using True by (subst sibling_path.simps) simp
    ultimately show ?thesis using "1.IH"[OF True] a by simp
  next
    case False
    then have "sibling_path ns i = []" by (subst sibling_path.simps) simp
    moreover have "ilog2 (i + 1) = 0" using False by (subst ilog2.simps) simp
    ultimately show ?thesis by simp
  qed
qed

lemma ilog2_mono: "m \<le> n \<Longrightarrow> ilog2 m \<le> ilog2 n"
proof (induction m arbitrary: n rule: ilog2.induct)
  case (1 m)
  show ?case
  proof (cases "m < 2")
    case True
    then show ?thesis by (simp add: ilog2.simps[of m])
  next
    case False
    then have "m div 2 \<le> n div 2" "\<not> n < 2" using "1.prems" by auto
    with 1 False show ?thesis by (simp add: ilog2.simps[of m] ilog2.simps[of n])
  qed
qed

lemma ilog2_double: "0 < n \<Longrightarrow> ilog2 (2 * n) = Suc (ilog2 n)"
  by (simp add: ilog2.simps[of "2 * n"])

lemma proof_loop_eq:
  "odd (length ns) \<Longrightarrow> i < length ns \<Longrightarrow> k + length (sibling_path ns i) \<le> length pr \<Longrightarrow>
   proof_loop ns (int i) (int k) pr =
     Inr (take k pr @ sibling_path ns i @ drop (k + length (sibling_path ns i)) pr)"
proof (induction ns i arbitrary: k pr rule: sibling_path.induct)
  case (1 ns i)
  show ?case
  proof (cases "0 < i")
    case False
    then have "sibling_path ns i = []" by (subst sibling_path.simps) simp
    moreover have "proof_loop ns (int i) (int k) pr = Inr pr"
      using False by (subst proof_loop.simps) simp
    ultimately show ?thesis by simp
  next
    case True
    let ?s = "if even i then i - 1 else i + 1"
    let ?p = "(i - 1) div 2"
    let ?c = "Some (bytes_of (ns ! ?s))"
    have sp: "sibling_path ns i = ?c # sibling_path ns ?p"
      using True by (subst sibling_path.simps) simp
    have s_lt: "?s < length ns" using "1.prems"(1,2) True by (auto elim!: oddE)
    have sib: "(if int i smod 2 = 0 then index ns (int i - 1) else index ns (int i + 1))
                = Inr (ns ! ?s)"
    proof (cases "even i")
      case even: True
      then have "int i smod 2 = 0" by (simp add: smod2_int)
      moreover have "index ns (int i - 1) = Inr (ns ! (i - 1))"
        using True s_lt even by (simp add: index_def nat_diff_distrib')
      ultimately show ?thesis using even by simp
    next
      case odd: False
      then have "int i smod 2 \<noteq> 0" by (simp add: smod2_int even_iff_mod_2_eq_zero)
      moreover have "index ns (int i + 1) = Inr (ns ! (i + 1))"
        using s_lt odd by (simp add: index_def nat_add_distrib)
      ultimately show ?thesis using odd by simp
    qed
    have k: "k < length pr" using "1.prems"(3) sp by simp
    have st: "store pr (int k) (copyNode (ns ! ?s)) = Inr (pr[k := ?c])"
      using k by (simp add: store_def copyNode_def)
    have p_lt: "?p < length ns" using "1.prems"(2) by linarith
    have len': "Suc k + length (sibling_path ns ?p) \<le> length (pr[k := ?c])"
      using "1.prems"(3) sp by simp
    have "proof_loop ns (int i) (int k) pr = proof_loop ns (int ?p) (int (Suc k)) (pr[k := ?c])"
      using True
      by (subst proof_loop.simps) (simp add: sib st pred_sdiv2_int add.commute)
    also have "\<dots> = Inr (take (Suc k) (pr[k := ?c]) @ sibling_path ns ?p
                          @ drop (Suc k + length (sibling_path ns ?p)) (pr[k := ?c]))"
      using "1.IH"[OF True "1.prems"(1) p_lt len'] .
    also have "take (Suc k) (pr[k := ?c]) = take k pr @ [?c]"
      using k by (simp add: take_Suc_conv_app_nth)
    also have "drop (Suc k + length (sibling_path ns ?p)) (pr[k := ?c])
                = drop (k + length (sibling_path ns i)) pr"
      by (simp add: sp)
    finally show ?thesis by (simp add: sp)
  qed
qed

lemma sibling_path_Some: "x \<in> set (sibling_path ns i) \<Longrightarrow> x \<noteq> None"
proof (induction ns i rule: sibling_path.induct)
  case (1 ns i)
  then show ?case
    by (cases "0 < i") (auto simp: sibling_path.simps[of ns i])
qed

lemma ilog2_ge1: "2 \<le> n \<Longrightarrow> 1 \<le> ilog2 n"
  by (subst ilog2.simps) simp

text \<open>The tail of \<^verbatim>\<open>Proof\<close>, after \<^verbatim>\<open>findLeaf\<close>, on an array of odd length.\<close>

lemma Proof_tail:
  assumes odd: "odd (length ns)" and i: "i < length ns"
    and lo: "ilog2 (length ns) \<le> Suc (ilog2 (i + 1))" and big: "2 \<le> length ns"
  shows "\<exists>pr. proof_loop ns (int i) 0 (replicate (ilog2 (length ns)) None) = Inr pr \<and>
          (case index pr (int (length pr) - 1) of
             Inl e \<Rightarrow> Inl e
           | Inr lst \<Rightarrow> if lst = None then Inr (take (length pr - 1) pr) else Inr pr)
          = Inr (sibling_path ns i)"
proof -
  let ?L = "ilog2 (length ns)" and ?path = "sibling_path ns i"
  let ?d = "length ?path"
  have d: "?d = ilog2 (i + 1)" by (rule length_sibling_path)
  have dL: "?d \<le> ?L" unfolding d using i by (intro ilog2_mono) simp
  have L1: "1 \<le> ?L" using big by (rule ilog2_ge1)
  let ?pr = "?path @ replicate (?L - ?d) None"
  have pl: "proof_loop ns (int i) 0 (replicate ?L None) = Inr ?pr"
    using proof_loop_eq[OF odd i, of 0 "replicate ?L None"] dL by simp
  have len: "length ?pr = ?L" using dL by simp
  have idx: "index ?pr (int (length ?pr) - 1) = Inr (?pr ! (?L - 1))"
    using L1 unfolding len by (simp add: index_def nat_diff_distrib' len)
  consider "?d = ?L" | "Suc ?d = ?L" using dL lo d by linarith
  then have "(if ?pr ! (?L - 1) = None then Inr (take (length ?pr - 1) ?pr) else Inr ?pr)
              = (Inr ?path :: error + TreeNode list)"
  proof cases
    case 1
    then have eq: "?pr = ?path" by simp
    have "?path ! (?L - 1) \<in> set ?path" using 1 L1 by (intro nth_mem) simp
    then have "?path ! (?L - 1) \<noteq> None" by (rule sibling_path_Some)
    then show ?thesis unfolding eq by (simp only: if_False)
  next
    case 2
    then have "?L - ?d = 1" "?L - 1 = ?d" by simp_all
    then show ?thesis by (simp add: nth_append)
  qed
  then show ?thesis using pl idx by simp
qed

lemma findLeaf_finalized:
  assumes fin: "Finalize H mt0 = (None, mt)" and nn: "block \<noteq> None"
    and ex: "\<exists>x \<in> set (blocks mt0). bytes_of x = bytes_of block"
  shows "findLeaf mt block =
     Inr (int (length (nodes mt) - length (blocks mt) + first_match (blocks mt0) block))"
    and "length (nodes mt) - length (blocks mt) + first_match (blocks mt0) block < length (nodes mt)"
    and "length (blocks mt) \<le> length (nodes mt) - length (blocks mt) + first_match (blocks mt0) block + 1"
proof -
  note s = Finalize_success[OF fin]
  let ?bs = "padded (blocks mt0)"
  have b: "blocks mt = ?bs" and n: "nodes mt = tree_array H ?bs" using s(3) by simp_all
  have pp: "even (length ?bs)" "2 \<le> length ?bs" using padded_props[OF s(1)] by auto
  have ex': "\<exists>x \<in> set ?bs. bytes_of x = bytes_of block" using ex set_padded[OF s(1)] by simp
  have fm: "first_match ?bs block = first_match (blocks mt0) block"
    using ex by (rule first_match_padded)
  have lt: "first_match (blocks mt0) block < length ?bs"
    using first_match_less[OF ex'] fm by simp
  show "findLeaf mt block =
     Inr (int (length (nodes mt) - length (blocks mt) + first_match (blocks mt0) block))"
    using nn ex' pp unfolding findLeaf_def b n
    by (simp add: findLeaf_loop_eq fm length_tree_array of_nat_diff)
  show "length (nodes mt) - length (blocks mt) + first_match (blocks mt0) block < length (nodes mt)"
    using lt pp unfolding b n length_tree_array by linarith
  show "length (blocks mt) \<le> length (nodes mt) - length (blocks mt) + first_match (blocks mt0) block + 1"
    using pp unfolding b n length_tree_array by linarith
qed

lemma nodes_finalized:
  assumes fin: "Finalize H mt0 = (None, mt)"
  shows "odd (length (nodes mt))" "3 \<le> length (nodes mt)" "finalized mt"
    "length (nodes mt) = 2 * length (blocks mt) - 1" "2 \<le> length (blocks mt)"
    "\<And>i. 2 * i + 2 < length (nodes mt) \<Longrightarrow>
       nodes mt ! i = hashNode H (bytes_of (nodes mt ! (2 * i + 1)) @ bytes_of (nodes mt ! (2 * i + 2))) True"
proof -
  note s = Finalize_success[OF fin]
  let ?bs = "padded (blocks mt0)"
  have b: "blocks mt = ?bs" and n: "nodes mt = tree_array H ?bs" using s(3) by simp_all
  have pp: "even (length ?bs)" "2 \<le> length ?bs" using padded_props[OF s(1)] by auto
  show "odd (length (nodes mt))" "3 \<le> length (nodes mt)" "length (nodes mt) = 2 * length (blocks mt) - 1"
    "2 \<le> length (blocks mt)"
    using pp unfolding b n length_tree_array by auto
  show "finalized mt" using s(3) by simp
  fix i assume "2 * i + 2 < length (nodes mt)"
  then have "i < length ?bs - 1" unfolding n length_tree_array by linarith
  then show "nodes mt ! i = hashNode H (bytes_of (nodes mt ! (2 * i + 1)) @ bytes_of (nodes mt ! (2 * i + 2))) True"
    unfolding n by (rule tree_array_internal)
qed

lemma Proof_finalized:
  assumes fin: "Finalize H mt0 = (None, mt)" and nn: "block \<noteq> None"
    and ex: "\<exists>x \<in> set (blocks mt0). bytes_of x = bytes_of block"
  shows "Proof mt block =
     Inr (sibling_path (nodes mt)
            (length (nodes mt) - length (blocks mt) + first_match (blocks mt0) block))"
proof -
  let ?i = "length (nodes mt) - length (blocks mt) + first_match (blocks mt0) block"
  note fl = findLeaf_finalized[OF fin nn ex]
  note nf = nodes_finalized[OF fin]
  have "ilog2 (length (nodes mt)) \<le> ilog2 (2 * length (blocks mt))"
    using nf(4) by (intro ilog2_mono) simp
  also have "\<dots> = Suc (ilog2 (length (blocks mt)))" using nf(5) by (intro ilog2_double) linarith
  also have "\<dots> \<le> Suc (ilog2 (?i + 1))" using fl(3) by (simp add: ilog2_mono)
  finally have lo: "ilog2 (length (nodes mt)) \<le> Suc (ilog2 (?i + 1))" .
  have big: "2 \<le> length (nodes mt)" using nf(2) by simp
  from Proof_tail[OF nf(1) fl(2) lo big]
  obtain pr where "proof_loop (nodes mt) (int ?i) 0 (replicate (ilog2 (length (nodes mt))) None) = Inr pr"
    and "(case index pr (int (length pr) - 1) of
             Inl e \<Rightarrow> Inl e
           | Inr lst \<Rightarrow> if lst = None then Inr (take (length pr - 1) pr) else Inr pr)
          = Inr (sibling_path (nodes mt) ?i)"
    by blast
  moreover have "length (nodes mt) \<noteq> 0" using big by linarith
  ultimately show ?thesis
    using nn nf(3) unfolding Proof_def fl(1) by (simp del: length_0_conv of_nat_add)
qed

section \<open>Checking a path against the stored nodes\<close>

lemma parent_in_range:
  fixes i n :: int
  assumes "0 \<le> i" "i < n"
  shows "0 \<le> (i - 1) sdiv 2" "(i - 1) sdiv 2 < n"
  using assms by (auto simp: signed_divide_int_def sgn_if)

lemma parent_of_root: "((0::int) - 1) sdiv 2 = 0"
  by (simp add: signed_divide_int_def)

lemma bytes_of_copyNode: "bytes_of (copyNode x) = bytes_of x"
  by (simp add: copyNode_def)

lemma verify_loop_no_panic:
  "0 \<le> idx \<Longrightarrow> idx < int (length ns) \<Longrightarrow>
   verify_loop H ns b pr idx c = None \<or>
   (\<exists>j got want. verify_loop H ns b pr idx c = Some (ErrInvalidProof j (bytes_of b) got want))"
proof (induction pr arbitrary: idx c)
  case Nil
  then show ?case by simp
next
  case (Cons x pr)
  let ?p = "(idx - 1) sdiv 2"
  have p: "0 \<le> ?p" "?p < int (length ns)" using parent_in_range[OF Cons.prems] .
  have i1: "index ns idx = Inr (ns ! nat idx)" using Cons.prems by (simp add: index_def)
  have i2: "index ns ?p = Inr (ns ! nat ?p)" using p by (simp add: index_def)
  show ?case
    using Cons.IH[OF p, of "c + 1"]
    by (simp add: i1 i2 Let_def)
qed

lemma verify_loop_step_up:
  assumes odd: "odd (length ns)" and i: "i < length ns" and pos: "0 < i"
    and inv: "\<And>j. 2 * j + 2 < length ns \<Longrightarrow>
       ns ! j = hashNode H (bytes_of (ns ! (2 * j + 1)) @ bytes_of (ns ! (2 * j + 2))) True"
  shows "verify_loop H ns b (Some (bytes_of (ns ! (if even i then i - 1 else i + 1))) # rest) (int i) c
         = verify_loop H ns b rest (int ((i - 1) div 2)) (c + 1)"
proof -
  let ?p = "(i - 1) div 2"
  have i1: "index ns (int i) = Inr (ns ! i)" using i by (simp add: index_def)
  have i2: "index ns (int ?p) = Inr (ns ! ?p)" using i by (simp add: index_def)
  have par: "(int i - 1) sdiv 2 = int ?p" using pos by (rule pred_sdiv2_int)
  show ?thesis
  proof (cases "even i")
    case True
    then have c: "2 * ?p + 2 = i" "2 * ?p + 1 = i - 1" using pos by presburger+
    have "2 * ?p + 2 < length ns" using c i by simp
    from inv[OF this] have "ns ! ?p = hashNode H (bytes_of (ns ! (i - 1)) @ bytes_of (ns ! i)) True"
      unfolding c .
    moreover have "int i smod 2 = 0" using True by (simp add: smod2_int)
    ultimately show ?thesis
      using True i1 i2 par by (simp add: Let_def bytes_of_copyNode bytes_Equal_def)
  next
    case False
    then have c: "2 * ?p + 1 = i" "2 * ?p + 2 = i + 1" by presburger+
    have "i + 1 < length ns" using False odd i by (auto elim!: oddE)
    then have "2 * ?p + 2 < length ns" using c by simp
    from inv[OF this] have "ns ! ?p = hashNode H (bytes_of (ns ! i) @ bytes_of (ns ! (i + 1))) True"
      unfolding c .
    moreover have "int i smod 2 \<noteq> 0" using False by (simp add: smod2_int even_iff_mod_2_eq_zero)
    ultimately show ?thesis
      using False i1 i2 par by (simp add: Let_def bytes_of_copyNode bytes_Equal_def)
  qed
qed

lemma verify_loop_path_append:
  assumes odd: "odd (length ns)"
    and inv: "\<And>j. 2 * j + 2 < length ns \<Longrightarrow>
       ns ! j = hashNode H (bytes_of (ns ! (2 * j + 1)) @ bytes_of (ns ! (2 * j + 2))) True"
    and i: "i < length ns"
  shows "verify_loop H ns b (sibling_path ns i @ rest) (int i) c
      = verify_loop H ns b rest 0 (c + int (length (sibling_path ns i)))"
  using assms
proof (induction ns i arbitrary: c rule: sibling_path.induct)
  case (1 ns i)
  show ?case
  proof (cases "0 < i")
    case False
    then have "sibling_path ns i = []" by (subst sibling_path.simps) simp
    then show ?thesis using False by simp
  next
    case True
    let ?p = "(i - 1) div 2"
    have sp: "sibling_path ns i
        = Some (bytes_of (ns ! (if even i then i - 1 else i + 1))) # sibling_path ns ?p"
      using True by (subst sibling_path.simps) simp
    have p: "?p < length ns" using "1.prems"(3) by linarith
    have "verify_loop H ns b (sibling_path ns i @ rest) (int i) c
        = verify_loop H ns b (sibling_path ns ?p @ rest) (int ?p) (c + 1)"
      unfolding sp append_Cons
      by (rule verify_loop_step_up[OF "1.prems"(1) "1.prems"(3) True "1.prems"(2)])
    also have "\<dots> = verify_loop H ns b rest 0 (c + 1 + int (length (sibling_path ns ?p)))"
      by (rule "1.IH"[OF True "1.prems"(1) "1.prems"(2) p])
    finally show ?thesis by (simp add: sp add.assoc)
  qed
qed

lemma verify_loop_prefix:
  "verify_loop H ns b (xs @ ys) idx c = None \<Longrightarrow> verify_loop H ns b xs idx c = None"
proof (induction xs arbitrary: idx c)
  case Nil
  then show ?case by simp
next
  case (Cons x xs)
  then show ?case
    by (auto simp: Let_def split: sum.splits if_splits)
qed

lemma verify_loop_root_mismatch:
  assumes "0 < length ns"
    and "H (1 # bytes_of x @ bytes_of (ns ! 0)) \<noteq> bytes_of (ns ! 0)"
  shows "verify_loop H ns b (x # extra) 0 c
    = Some (ErrInvalidProof c (bytes_of b) (H (1 # bytes_of x @ bytes_of (ns ! 0))) (bytes_of (ns ! 0)))"
  using assms
  by (simp add: index_def Let_def bytes_of_copyNode bytes_Equal_def hashNode_def signed_divide_int_def)

section \<open>Proofs and their verification\<close>

lemma example_tree_finalized:
  "Finalize example_hash (NewMerkleTree example_blocks) = (None, example_tree)"
  by code_simp

lemma example_block_present:
  "\<exists>x \<in> set (blocks (NewMerkleTree example_blocks)). bytes_of x = bytes_of (Some [2])"
  by (simp add: NewMerkleTree_def example_blocks_def)

lemma Verify_finalized:
  assumes fin: "Finalize H mt0 = (None, mt)" and nn: "block \<noteq> None"
    and ex: "\<exists>x \<in> set (blocks mt0). bytes_of x = bytes_of block"
  shows "Verify H mt block pr =
     verify_loop H (nodes mt) block pr
       (int (length (nodes mt) - length (blocks mt) + first_match (blocks mt0) block)) 0"
  using nodes_finalized(3)[OF fin] findLeaf_finalized(1)[OF fin nn ex]
  by (simp add: Verify_def del: of_nat_add)

lemma Verify_path_append:
  assumes fin: "Finalize H mt0 = (None, mt)" and nn: "block \<noteq> None"
    and ex: "\<exists>x \<in> set (blocks mt0). bytes_of x = bytes_of block"
    and p: "Proof mt block = Inr p"
  shows "Verify H mt block (p @ rest) = verify_loop H (nodes mt) block rest 0 (int (length p))"
proof -
  let ?i = "length (nodes mt) - length (blocks mt) + first_match (blocks mt0) block"
  have pe: "p = sibling_path (nodes mt) ?i"
    using Proof_finalized[OF fin nn ex] p by simp
  note nf = nodes_finalized[OF fin]
  show ?thesis
    unfolding Verify_finalized[OF fin nn ex] pe
    using verify_loop_path_append[of "nodes mt" H ?i block rest 0,
        OF nf(1) nf(6) findLeaf_finalized(2)[OF fin nn ex]]
    by simp
qed

lemma Proof_Inr_present:
  assumes fin: "Finalize H mt0 = (None, mt)" and p: "Proof mt block = Inr p"
  shows "block \<noteq> None" "\<exists>x \<in> set (blocks mt0). bytes_of x = bytes_of block"
proof -
  show nn: "block \<noteq> None" using p by (auto simp: Proof_def split: if_splits)
  have "\<exists>idx. findLeaf mt block = Inr idx"
    using p nn by (auto simp: Proof_def split: if_splits sum.splits)
  then have "\<exists>x \<in> set (blocks mt). bytes_of x = bytes_of block"
    by (auto simp: findLeaf_def findLeaf_loop_eq split: if_splits option.splits)
  moreover have "set (blocks mt) = set (blocks mt0)"
    using Finalize_success(1,3)[OF fin] by (simp add: set_padded)
  ultimately show "\<exists>x \<in> set (blocks mt0). bytes_of x = bytes_of block" by simp
qed

lemma Verify_no_panic_any:
  assumes fin: "Finalize H mt0 = (None, mt)"
  shows "Verify H mt block pr \<noteq> Some Panic \<and> Verify H mt block pr \<noteq> Some StackOverflow"
proof (cases "block \<noteq> None \<and> (\<exists>x \<in> set (blocks mt0). bytes_of x = bytes_of block)")
  case True
  then have nn: "block \<noteq> None" and ex: "\<exists>x \<in> set (blocks mt0). bytes_of x = bytes_of block"
    by auto
  have "Verify H mt block pr = None \<or>
          (\<exists>i got want. Verify H mt block pr = Some (ErrInvalidProof i (bytes_of block) got want))"
    unfolding Verify_finalized[OF fin nn ex]
    using findLeaf_finalized(2)[OF fin nn ex] by (intro verify_loop_no_panic) simp_all
  then show ?thesis by auto
next
  case False
  have s: "set (blocks mt) = set (blocks mt0)"
    using Finalize_success(1,3)[OF fin] by (simp add: set_padded)
  have "findLeaf mt block = Inl ErrNilBlock \<or> findLeaf mt block = Inl (ErrBlockDoesNotExist (bytes_of block))"
    using False unfolding s[symmetric] by (auto simp: findLeaf_def findLeaf_loop_eq)
  then show ?thesis by (auto simp: Verify_def)
qed


text \<open>
  Claim C1. In a finalized tree, whenever Proof returns a proof for a block, Verify
  accepts that proof for that block; and Proof returns a proof for every block with
  the bytes of one of the inserted blocks. (Blocks are non-nil slices: to nil, the
  absent block, Proof answers \<^verbatim>\<open>ErrNilBlock\<close>.)
\<close>

theorem Verify_Proof_succeeds:
  assumes "Finalize H mt0 = (None, mt)"
  shows "(\<forall>p. Proof mt block = Inr p \<longrightarrow> Verify H mt block p = None) \<and>
    (block \<noteq> None \<and> (\<exists>x \<in> set (blocks mt0). bytes_of x = bytes_of block) \<longrightarrow>
       (\<exists>p. Proof mt block = Inr p \<and> Verify H mt block p = None))"
proof -
  have v: "Verify H mt block p = None" if p: "Proof mt block = Inr p" for p
  proof -
    note pp = Proof_Inr_present[OF assms p]
    have "Verify H mt block (p @ []) = None"
      unfolding Verify_path_append[OF assms pp p] by simp
    then show ?thesis by simp
  qed
  moreover have "\<exists>p. Proof mt block = Inr p"
    if "block \<noteq> None" "\<exists>x \<in> set (blocks mt0). bytes_of x = bytes_of block"
    using Proof_finalized[OF assms that] by blast
  ultimately show ?thesis by blast
qed

theorem Verify_Proof_succeeds_witness:
  "Finalize example_hash (NewMerkleTree example_blocks) = (None, example_tree) \<and>
   (\<exists>x \<in> set (blocks (NewMerkleTree example_blocks)). bytes_of x = bytes_of (Some [2])) \<and>
   Proof example_tree (Some [2]) = Inr [Some [0, 1], Some [1, 0, 3, 0, 3]] \<and>
   Verify example_hash example_tree (Some [2]) [Some [0, 1], Some [1, 0, 3, 0, 3]] = None"
proof -
  have pr: "Proof example_tree (Some [2]) = Inr [Some [0, 1], Some [1, 0, 3, 0, 3]]"
    by code_simp
  show ?thesis
    using Verify_Proof_succeeds[OF example_tree_finalized, of "Some [2]"] pr
      example_tree_finalized example_block_present
    by simp
qed

text \<open>
  Claim C3. In a finalized tree, for a (non-nil) block with the bytes of an inserted
  block: the first matching position lies among the inserted blocks and no earlier
  block has these bytes; the leaf is at \<open>len(nodes) - len(blocks)\<close> plus that position;
  and Proof returns exactly the sibling path of that leaf, no empty slot left at its
  end.
\<close>

theorem Proof_is_sibling_path:
  assumes "Finalize H mt0 = (None, mt)" and "block \<noteq> None"
    and "\<exists>x \<in> set (blocks mt0). bytes_of x = bytes_of block"
  shows "first_match (blocks mt0) block < length (blocks mt0) \<and>
    bytes_of (blocks mt0 ! first_match (blocks mt0) block) = bytes_of block \<and>
    (\<forall>k < first_match (blocks mt0) block. bytes_of (blocks mt0 ! k) \<noteq> bytes_of block) \<and>
    findLeaf mt block =
      Inr (int (length (nodes mt)) - int (length (blocks mt)) + int (first_match (blocks mt0) block)) \<and>
    Proof mt block =
      Inr (sibling_path (nodes mt)
             (length (nodes mt) - length (blocks mt) + first_match (blocks mt0) block))"
proof -
  note nf = nodes_finalized[OF assms(1)]
  have "length (blocks mt) \<le> length (nodes mt)" using nf(4,5) by linarith
  then have "findLeaf mt block =
      Inr (int (length (nodes mt)) - int (length (blocks mt)) + int (first_match (blocks mt0) block))"
    using findLeaf_finalized(1)[OF assms] by (simp add: of_nat_diff)
  then show ?thesis
    using first_match_less[OF assms(3)] first_match_hit[OF assms(3)]
      first_match_earliest[of _ "blocks mt0" block] Proof_finalized[OF assms]
    by blast
qed

theorem Proof_is_sibling_path_witness:
  "Finalize example_hash (NewMerkleTree example_blocks) = (None, example_tree) \<and>
   (\<exists>x \<in> set (blocks (NewMerkleTree example_blocks)). bytes_of x = bytes_of (Some [2])) \<and>
   first_match (blocks (NewMerkleTree example_blocks)) (Some [2]) = 1 \<and>
   findLeaf example_tree (Some [2]) = Inr 4 \<and>
   Proof example_tree (Some [2]) = Inr [Some [0, 1], Some [1, 0, 3, 0, 3]]"
proof -
  have fm: "first_match (blocks (NewMerkleTree example_blocks)) (Some [2]) = 1"
    by code_simp
  have len: "length (nodes example_tree) = 7" "length (blocks example_tree) = 4"
    by code_simp+
  have sp: "sibling_path (nodes example_tree) 4 = [Some [0, 1], Some [1, 0, 3, 0, 3]]"
    by code_simp
  show ?thesis
    using Proof_is_sibling_path[OF example_tree_finalized _ example_block_present]
      example_tree_finalized example_block_present
    by (simp add: fm len sp)
qed

text \<open>
  Claim C9. In a finalized tree, Verify accepts every prefix of a proof that Proof
  returns for a block, the empty proof among them; and Proof returns a proof for
  every (non-nil) block with the bytes of an inserted block.
\<close>

theorem Verify_accepts_prefixes:
  assumes "Finalize H mt0 = (None, mt)"
  shows "(\<forall>p q zs. Proof mt block = Inr p \<and> p = q @ zs \<longrightarrow> Verify H mt block q = None) \<and>
    (\<forall>p. Proof mt block = Inr p \<longrightarrow> Verify H mt block [] = None) \<and>
    (block \<noteq> None \<and> (\<exists>x \<in> set (blocks mt0). bytes_of x = bytes_of block) \<longrightarrow>
       (\<exists>p. Proof mt block = Inr p))"
proof -
  have pre: "Verify H mt block q = None" if p: "Proof mt block = Inr p" and q: "p = q @ zs"
    for p q zs
  proof -
    note pp = Proof_Inr_present[OF assms p]
    have full: "Verify H mt block p = None"
      using Verify_path_append[OF assms pp p, of "[]"] by simp
    show ?thesis
      using full unfolding Verify_finalized[OF assms pp] q by (rule verify_loop_prefix)
  qed
  moreover have "Verify H mt block [] = None" if p: "Proof mt block = Inr p" for p
    using pre[OF p, of "[]" p] by simp
  moreover have "\<exists>p. Proof mt block = Inr p"
    if "block \<noteq> None" "\<exists>x \<in> set (blocks mt0). bytes_of x = bytes_of block"
    using Proof_finalized[OF assms that] by blast
  ultimately show ?thesis by blast
qed

theorem Verify_accepts_prefixes_witness:
  "Finalize example_hash (NewMerkleTree example_blocks) = (None, example_tree) \<and>
   (\<exists>x \<in> set (blocks (NewMerkleTree example_blocks)). bytes_of x = bytes_of (Some [2])) \<and>
   Proof example_tree (Some [2]) = Inr [Some [0, 1], Some [1, 0, 3, 0, 3]] \<and>
   Verify example_hash example_tree (Some [2]) [Some [0, 1]] = None \<and>
   Verify example_hash example_tree (Some [2]) [] = None"
proof -
  have pr: "Proof example_tree (Some [2]) = Inr [Some [0, 1], Some [1, 0, 3, 0, 3]]"
    by code_simp
  note t = Verify_accepts_prefixes[OF example_tree_finalized, of "Some [2]"]
  have "[Some [0, 1], Some [1, 0, 3, 0, 3]] = [Some [0::byte, 1]] @ [Some [1, 0, 3, 0, 3]]"
    by simp
  with t pr have "Verify example_hash example_tree (Some [2]) [Some [0, 1]] = None"
    by blast
  moreover from t pr have "Verify example_hash example_tree (Some [2]) [] = None"
    by blast
  ultimately show ?thesis using pr example_tree_finalized example_block_present by simp
qed

text \<open>
  Claim C10. In a finalized tree, for any block and any proof whatsoever, Verify does
  not panic; for a (non-nil) block with the bytes of an inserted block it returns
  success or a mismatch error. From a valid index the parent index \<open>(i - 1) / 2\<close> is
  valid again, and it stays 0 at index 0 (Go's division truncates toward zero). A
  surplus entry after the proof of the block is checked at index 0 against the root,
  and is reported as a mismatch at its position unless the digest of \<open>0x01\<close>, the
  entry and the root is the root itself.
\<close>

theorem Verify_never_panics:
  assumes "Finalize H mt0 = (None, mt)"
  shows "Verify H mt block pr \<noteq> Some Panic \<and> Verify H mt block pr \<noteq> Some StackOverflow \<and>
    (block \<noteq> None \<and> (\<exists>x \<in> set (blocks mt0). bytes_of x = bytes_of block) \<longrightarrow>
       Verify H mt block pr = None \<or>
       (\<exists>i got want. Verify H mt block pr = Some (ErrInvalidProof i (bytes_of block) got want))) \<and>
    (\<forall>i. 0 \<le> i \<and> i < int (length (nodes mt)) \<longrightarrow>
          0 \<le> (i - 1) sdiv 2 \<and> (i - 1) sdiv 2 < int (length (nodes mt))) \<and>
    ((0::int) - 1) sdiv 2 = 0 \<and>
    (\<forall>p x extra. Proof mt block = Inr p \<and>
        H (1 # bytes_of x @ bytes_of (root mt)) \<noteq> bytes_of (root mt) \<longrightarrow>
        Verify H mt block (p @ x # extra) =
          Some (ErrInvalidProof (int (length p)) (bytes_of block)
                  (H (1 # bytes_of x @ bytes_of (root mt))) (bytes_of (root mt))))"
proof -
  note nf = nodes_finalized[OF assms(1)]
  have r: "root mt = nodes mt ! 0"
    using Finalize_success(1,3)[OF assms(1)] padded_props[of "blocks mt0"]
    by (simp add: tree_array_nth)
  have A: "Verify H mt block pr \<noteq> Some Panic" "Verify H mt block pr \<noteq> Some StackOverflow"
    using Verify_no_panic_any[OF assms, of block pr] by simp_all
  have B: "block \<noteq> None \<and> (\<exists>x \<in> set (blocks mt0). bytes_of x = bytes_of block) \<longrightarrow>
       Verify H mt block pr = None \<or>
       (\<exists>i got want. Verify H mt block pr = Some (ErrInvalidProof i (bytes_of block) got want))"
  proof
    assume h: "block \<noteq> None \<and> (\<exists>x \<in> set (blocks mt0). bytes_of x = bytes_of block)"
    then have nn: "block \<noteq> None" and ex: "\<exists>x \<in> set (blocks mt0). bytes_of x = bytes_of block"
      by simp_all
    show "Verify H mt block pr = None \<or>
       (\<exists>i got want. Verify H mt block pr = Some (ErrInvalidProof i (bytes_of block) got want))"
      unfolding Verify_finalized[OF assms nn ex]
      using findLeaf_finalized(2)[OF assms nn ex] by (intro verify_loop_no_panic) simp_all
  qed
  have C: "\<forall>i. 0 \<le> i \<and> i < int (length (nodes mt)) \<longrightarrow>
          0 \<le> (i - 1) sdiv 2 \<and> (i - 1) sdiv 2 < int (length (nodes mt))"
    using parent_in_range by blast
  have D: "((0::int) - 1) sdiv 2 = 0" by (rule parent_of_root)
  have E: "\<forall>p x extra. Proof mt block = Inr p \<and>
        H (1 # bytes_of x @ bytes_of (root mt)) \<noteq> bytes_of (root mt) \<longrightarrow>
        Verify H mt block (p @ x # extra) =
          Some (ErrInvalidProof (int (length p)) (bytes_of block)
                  (H (1 # bytes_of x @ bytes_of (root mt))) (bytes_of (root mt)))"
  proof (intro allI impI, elim conjE)
    fix p x extra
    assume p: "Proof mt block = Inr p"
      and ne: "H (1 # bytes_of x @ bytes_of (root mt)) \<noteq> bytes_of (root mt)"
    note pp = Proof_Inr_present[OF assms p]
    have "0 < length (nodes mt)" using nf(2) by linarith
    then show "Verify H mt block (p @ x # extra) =
          Some (ErrInvalidProof (int (length p)) (bytes_of block)
                  (H (1 # bytes_of x @ bytes_of (root mt))) (bytes_of (root mt)))"
      unfolding Verify_path_append[OF assms pp p] r
      using ne unfolding r by (rule verify_loop_root_mismatch)
  qed
  show ?thesis using A B C D E by (intro conjI)
qed

theorem Verify_never_panics_witness:
  "Finalize example_hash (NewMerkleTree example_blocks) = (None, example_tree) \<and>
   (\<exists>x \<in> set (blocks (NewMerkleTree example_blocks)). bytes_of x = bytes_of (Some [2])) \<and>
   Proof example_tree (Some [2]) = Inr [Some [0, 1], Some [1, 0, 3, 0, 3]] \<and>
   Verify example_hash example_tree (Some [2]) [Some [0, 1], Some [1, 0, 3, 0, 3], None, Some [7]] =
     Some (ErrInvalidProof 2 [2] [1, 1, 1, 0, 1, 0, 2, 1, 0, 3, 0, 3] [1, 1, 0, 1, 0, 2, 1, 0, 3, 0, 3]) \<and>
   (Verify example_hash example_tree (Some [2]) [Some [9], None, None, None, None] = None \<or>
    (\<exists>i got want. Verify example_hash example_tree (Some [2]) [Some [9], None, None, None, None]
        = Some (ErrInvalidProof i (bytes_of (Some [2])) got want)))"
proof -
  have pr: "Proof example_tree (Some [2]) = Inr [Some [0, 1], Some [1, 0, 3, 0, 3]]"
    by code_simp
  have rt: "root example_tree = Some [1, 1, 0, 1, 0, 2, 1, 0, 3, 0, 3]"
    by code_simp
  have ne: "example_hash (1 # bytes_of None @ bytes_of (root example_tree)) \<noteq> bytes_of (root example_tree)"
    unfolding rt by (simp add: example_hash_def)
  note t = Verify_never_panics[OF example_tree_finalized, of "Some [2]"]
  have a: "Verify example_hash example_tree (Some [2])
             ([Some [0, 1], Some [1, 0, 3, 0, 3]] @ None # [Some [7]]) =
     Some (ErrInvalidProof (int (length [Some [0::byte, 1], Some [1, 0, 3, 0, 3]])) (bytes_of (Some [2]))
            (example_hash (1 # bytes_of None @ bytes_of (root example_tree)))
            (bytes_of (root example_tree)))"
    using t[of "[]"] pr ne by blast
  have b: "Verify example_hash example_tree (Some [2]) [Some [9], None, None, None, None] = None \<or>
    (\<exists>i got want. Verify example_hash example_tree (Some [2]) [Some [9], None, None, None, None]
        = Some (ErrInvalidProof i (bytes_of (Some [2])) got want))"
    using t[of "[Some [9], None, None, None, None]"] example_block_present by blast
  show ?thesis
    using a b pr example_tree_finalized example_block_present
    by (simp add: rt example_hash_def)
qed

section \<open>Building, finalizing and the root\<close>

lemma built_eq: "built bs mt \<Longrightarrow> mt = NewMerkleTree bs"
  by (induction rule: built.induct)
     (auto simp: Insert_def NewMerkleTree_def split: if_splits)

lemma Finalize_NewMerkleTree:
  "bs \<noteq> [] \<Longrightarrow>
   Finalize H (NewMerkleTree bs) =
     (None, \<lparr>blocks = padded bs, nodes = tree_array H (padded bs),
             root = digest H (leaf_array H (padded bs)) 0, finalized = True\<rparr>)"
  by (simp add: Finalize_eq NewMerkleTree_def)

lemma digest_Some:
  "0 < length bs \<Longrightarrow> \<exists>r. digest H (leaf_array H bs) 0 = Some r"
  by (subst digest.simps) (auto simp: hashNode_def leaf_array_def nth_append)

lemma digest_slot_digest:
  "bs \<noteq> [] \<Longrightarrow> i < 2 * length bs - 1 \<Longrightarrow>
   digest H (leaf_array H bs) i = Some (slot_digest H bs i)"
proof (induction H bs i rule: slot_digest.induct)
  case (1 H bs i)
  have len: "length (leaf_array H bs) = 2 * length bs - 1"
    using "1.prems"(1) by (rule length_leaf_array)
  show ?case
  proof (cases "i + 1 < length bs")
    case True
    then have lt: "2 * i + 2 < length (leaf_array H bs)" unfolding len by linarith
    have a: "digest H (leaf_array H bs) (2 * i + 1) = Some (slot_digest H bs (2 * i + 1))"
      using True "1.prems"(1) by (intro "1.IH"(1)) linarith+
    have b: "digest H (leaf_array H bs) (2 * i + 2) = Some (slot_digest H bs (2 * i + 2))"
      using True "1.prems"(1) by (intro "1.IH"(2)) linarith+
    have "digest H (leaf_array H bs) i =
        hashNode H (bytes_of (digest H (leaf_array H bs) (2 * i + 1))
                    @ bytes_of (digest H (leaf_array H bs) (2 * i + 2))) True"
      using lt by (subst digest.simps) (simp only: if_True)
    also have "\<dots> = Some (H (1 # slot_digest H bs (2 * i + 1) @ slot_digest H bs (2 * i + 2)))"
      unfolding a b by (simp add: hashNode_def)
    also have "H (1 # slot_digest H bs (2 * i + 1) @ slot_digest H bs (2 * i + 2)) = slot_digest H bs i"
      using True by (subst slot_digest.simps[of H bs i]) (simp only: if_True)
    finally show ?thesis .
  next
    case False
    then have nlt: "\<not> 2 * i + 2 < length (leaf_array H bs)" unfolding len by linarith
    let ?k = "i + 1 - length bs"
    have k: "?k < length bs" "i = length bs - 1 + ?k" using False "1.prems" by linarith+
    have "digest H (leaf_array H bs) i = leaf_array H bs ! i"
      using nlt by (subst digest.simps) (simp only: if_False)
    also have "\<dots> = leaf_array H bs ! (length (replicate (length bs - 1) (None::TreeNode)) + ?k)"
      using k(2) by simp
    also have "\<dots> = map (\<lambda>b. hashNode H (bytes_of b) False) bs ! ?k"
      unfolding leaf_array_def by (rule nth_append_length_plus)
    also have "\<dots> = Some (H (0 # bytes_of (bs ! ?k)))"
      using k(1) by (simp add: hashNode_def)
    also have "H (0 # bytes_of (bs ! ?k)) = slot_digest H bs i"
      using False by (subst slot_digest.simps[of H bs i]) (simp only: if_False)
    finally show ?thesis .
  qed
qed

lemma RootHash_built:
  assumes "built bs mt" and "bs \<noteq> []"
  shows "fst (Finalize H mt) = None"
    and "RootHash (snd (Finalize H mt)) = Inr (Some (merkle_root H bs))"
proof -
  have eq: "mt = NewMerkleTree bs" using assms(1) by (rule built_eq)
  have pp: "padded bs \<noteq> []" "0 < 2 * length (padded bs) - 1"
    using padded_props[OF assms(2)] by auto
  show "fst (Finalize H mt) = None"
    unfolding eq Finalize_NewMerkleTree[OF assms(2)] by simp
  show "RootHash (snd (Finalize H mt)) = Inr (Some (merkle_root H bs))"
    unfolding eq Finalize_NewMerkleTree[OF assms(2)]
    by (simp add: RootHash_def copyNode_def merkle_root_def digest_slot_digest[OF pp])
qed

lemma RootHash_built_empty:
  assumes "built [] mt"
  shows "Finalize H mt = (Some (Errorf ''Failed to finalize: '' ErrEmptyMerkleTree), mt)"
    and "RootHash (snd (Finalize H mt)) = Inl (Errorf ''invalid root hash: '' ErrTreeNotFinalized)"
proof -
  have eq: "mt = NewMerkleTree []" using assms by (rule built_eq)
  show "Finalize H mt = (Some (Errorf ''Failed to finalize: '' ErrEmptyMerkleTree), mt)"
    unfolding eq by (simp add: Finalize_def NewMerkleTree_def)
  then show "RootHash (snd (Finalize H mt)) = Inl (Errorf ''invalid root hash: '' ErrTreeNotFinalized)"
    unfolding eq by (simp add: RootHash_def NewMerkleTree_def)
qed

text \<open>
  Claim C7. The root is a function of the ordered blocks and the digest: two trees
  built from the same block sequence \<open>bs\<close>, each in its own storage, whichever way the
  sequence was split between \<^verbatim>\<open>NewMerkleTree\<close> and \<^verbatim>\<open>Insert\<close>, are finalized with the same
  outcome and return the same RootHash. For a sequence that is not empty both are
  finalized and both return \<open>merkle_root H bs\<close>, the root the specification computes
  from \<open>bs\<close> and \<open>H\<close>; for the empty sequence both refuse to finalize.
\<close>

theorem RootHash_deterministic:
  assumes "built bs mt1" and "built bs mt2"
  shows "fst (Finalize H mt1) = fst (Finalize H mt2) \<and>
    RootHash (snd (Finalize H mt1)) = RootHash (snd (Finalize H mt2)) \<and>
    (bs \<noteq> [] \<longrightarrow>
       fst (Finalize H mt1) = None \<and> fst (Finalize H mt2) = None \<and>
       RootHash (snd (Finalize H mt1)) = Inr (Some (merkle_root H bs)) \<and>
       RootHash (snd (Finalize H mt2)) = Inr (Some (merkle_root H bs))) \<and>
    (bs = [] \<longrightarrow>
       fst (Finalize H mt1) = Some (Errorf ''Failed to finalize: '' ErrEmptyMerkleTree) \<and>
       RootHash (snd (Finalize H mt1)) = Inl (Errorf ''invalid root hash: '' ErrTreeNotFinalized))"
proof (cases "bs = []")
  case True
  show ?thesis
    using RootHash_built_empty[of mt1 H] RootHash_built_empty[of mt2 H] assms True by simp
next
  case False
  show ?thesis
    using RootHash_built[OF assms(1) False, of H] RootHash_built[OF assms(2) False, of H] False
    by simp
qed

theorem RootHash_deterministic_witness:
  "built example_blocks (NewMerkleTree example_blocks) \<and>
   built example_blocks
     (snd (Insert (Some [3]) (snd (Insert (Some [2]) (NewMerkleTree [Some [1]]))))) \<and>
   merkle_root example_hash example_blocks = [1, 1, 0, 1, 0, 2, 1, 0, 3, 0, 3] \<and>
   RootHash (snd (Finalize example_hash (NewMerkleTree example_blocks))) =
     Inr (Some [1, 1, 0, 1, 0, 2, 1, 0, 3, 0, 3]) \<and>
   RootHash (snd (Finalize example_hash
     (snd (Insert (Some [3]) (snd (Insert (Some [2]) (NewMerkleTree [Some [1]]))))))) =
     Inr (Some [1, 1, 0, 1, 0, 2, 1, 0, 3, 0, 3])"
proof -
  let ?t1 = "snd (Insert (Some [2]) (NewMerkleTree [Some [1]]))"
  let ?t2 = "snd (Insert (Some [3]) ?t1)"
  have i1: "Insert (Some [2]) (NewMerkleTree [Some [1]]) = (None, ?t1)"
    by (simp add: Insert_def NewMerkleTree_def)
  have i2: "Insert (Some [3]) ?t1 = (None, ?t2)"
    by (simp add: Insert_def NewMerkleTree_def)
  have b1: "built example_blocks (NewMerkleTree example_blocks)" by (rule built.new)
  have "built (([Some [1]] @ [Some [2]]) @ [Some [3]]) ?t2"
    by (rule built.ins[OF built.ins[OF built.new i1] i2])
  then have b2: "built example_blocks ?t2" by (simp add: example_blocks_def)
  have ne: "example_blocks \<noteq> []" by (simp add: example_blocks_def)
  have m: "merkle_root example_hash example_blocks = [1, 1, 0, 1, 0, 2, 1, 0, 3, 0, 3]"
    by code_simp
  note t = RootHash_deterministic[OF b1 b2, of example_hash]
  from t ne have "RootHash (snd (Finalize example_hash (NewMerkleTree example_blocks))) =
      Inr (Some (merkle_root example_hash example_blocks))"
    and "RootHash (snd (Finalize example_hash ?t2)) =
      Inr (Some (merkle_root example_hash example_blocks))"
    by blast+
  then show ?thesis using b1 b2 m by simp
qed

lemma tree_array_internal_at:
  "i < length bs - 1 \<Longrightarrow> l = 2 * i + 1 \<Longrightarrow> r = 2 * i + 2 \<Longrightarrow>
   tree_array H bs ! i =
     hashNode H (bytes_of (tree_array H bs ! l) @ bytes_of (tree_array H bs ! r)) True"
  by (simp add: tree_array_internal)

lemma tree_array_leaf_at:
  "k < length bs \<Longrightarrow> j = length bs - 1 + k \<Longrightarrow>
   tree_array H bs ! j = hashNode H (bytes_of (bs ! k)) False"
  using tree_array_leaf[of k bs H] by fastforce

text \<open>
  Claim C5. A tree built from the blocks \<open>a, b, c\<close> and a tree built from
  \<open>a, b, c, c\<close> are finalized to the same tree and return the same RootHash, the
  digest of the four leaves \<open>a, b, c, c\<close>.
\<close>

theorem padding_equivalence:
  assumes "built [a, b, c] mt1" and "built [a, b, c, c] mt2"
  shows "Finalize H mt1 = Finalize H mt2 \<and> fst (Finalize H mt1) = None \<and>
    RootHash (snd (Finalize H mt1)) = RootHash (snd (Finalize H mt2)) \<and>
    RootHash (snd (Finalize H mt1)) =
      Inr (Some (H (1 # H (1 # H (0 # bytes_of a) @ H (0 # bytes_of b))
                      @ H (1 # H (0 # bytes_of c) @ H (0 # bytes_of c)))))"
proof -
  have eq: "mt1 = NewMerkleTree [a, b, c]" "mt2 = NewMerkleTree [a, b, c, c]"
    using assms by (auto dest: built_eq)
  have p: "padded [a, b, c] = [a, b, c, c]" "padded [a, b, c, c] = [a, b, c, c]"
    by (simp_all add: padded_def)
  let ?bs = "[a, b, c, c]"
  let ?ta = "tree_array H ?bs"
  have i0: "?ta ! 0 = hashNode H (bytes_of (?ta ! 1) @ bytes_of (?ta ! 2)) True"
    by (rule tree_array_internal_at) simp_all
  have i1: "?ta ! 1 = hashNode H (bytes_of (?ta ! 3) @ bytes_of (?ta ! 4)) True"
    by (rule tree_array_internal_at) simp_all
  have i2: "?ta ! 2 = hashNode H (bytes_of (?ta ! 5) @ bytes_of (?ta ! 6)) True"
    by (rule tree_array_internal_at) simp_all
  have l3: "?ta ! 3 = hashNode H (bytes_of (?bs ! 0)) False"
    by (rule tree_array_leaf_at) simp_all
  have l4: "?ta ! 4 = hashNode H (bytes_of (?bs ! 1)) False"
    by (rule tree_array_leaf_at) simp_all
  have l5: "?ta ! 5 = hashNode H (bytes_of (?bs ! 2)) False"
    by (rule tree_array_leaf_at) simp_all
  have l6: "?ta ! 6 = hashNode H (bytes_of (?bs ! 3)) False"
    by (rule tree_array_leaf_at) simp_all
  have "digest H (leaf_array H ?bs) 0 = ?ta ! 0"
    by (rule tree_array_nth[symmetric]) simp
  then have d: "digest H (leaf_array H ?bs) 0 =
      Some (H (1 # H (1 # H (0 # bytes_of a) @ H (0 # bytes_of b))
                      @ H (1 # H (0 # bytes_of c) @ H (0 # bytes_of c))))"
    unfolding i0 i1 i2 l3 l4 l5 l6 by (simp add: hashNode_def)
  show ?thesis
    unfolding eq
    by (simp add: Finalize_NewMerkleTree p RootHash_def copyNode_def d)
qed

theorem padding_equivalence_witness:
  "built [Some [1], Some [2], Some [3]] (NewMerkleTree [Some [1], Some [2], Some [3]]) \<and>
   built [Some [1], Some [2], Some [3], Some [3]] (NewMerkleTree [Some [1], Some [2], Some [3], Some [3]]) \<and>
   RootHash (snd (Finalize example_hash (NewMerkleTree [Some [1], Some [2], Some [3]]))) =
   RootHash (snd (Finalize example_hash (NewMerkleTree [Some [1], Some [2], Some [3], Some [3]]))) \<and>
   RootHash (snd (Finalize example_hash (NewMerkleTree [Some [1], Some [2], Some [3]]))) =
     Inr (Some [1, 1, 0, 1, 0, 2, 1, 0, 3, 0, 3])"
proof -
  let ?A = "RootHash (snd (Finalize example_hash (NewMerkleTree [Some [1], Some [2], Some [3]])))"
  let ?B = "RootHash (snd (Finalize example_hash (NewMerkleTree [Some [1], Some [2], Some [3], Some [3]])))"
  note t = padding_equivalence[OF built.new built.new,
      where a = "Some [1]" and b = "Some [2]" and c = "Some [3]" and H = example_hash]
  from t have e1: "?A = ?B" by blast
  from t have "?A = Inr (Some (example_hash (1 # example_hash (1 # example_hash (0 # bytes_of (Some [1]))
                      @ example_hash (0 # bytes_of (Some [2])))
                      @ example_hash (1 # example_hash (0 # bytes_of (Some [3]))
                      @ example_hash (0 # bytes_of (Some [3]))))))"
    by blast
  then have e2: "?A = Inr (Some [1, 1, 0, 1, 0, 2, 1, 0, 3, 0, 3])"
    by (simp add: example_hash_def)
  show ?thesis
    using e1 e2 built.new[of "[Some [1], Some [2], Some [3]]"]
      built.new[of "[Some [1], Some [2], Some [3], Some [3]]"]
    by (intro conjI)
qed

text \<open>
  Claim C6. A Finalize that returns an error leaves the tree as it was: blocks, nodes,
  root and the finalized flag are those of the tree before the call. The error is
  that of an empty tree, or that of a tree already finalized; Finalize never panics.
\<close>

theorem Finalize_atomic_on_failure:
  assumes "Finalize H mt = (Some e, mt')"
  shows "mt' = mt \<and> blocks mt' = blocks mt \<and> nodes mt' = nodes mt \<and> root mt' = root mt \<and>
    finalized mt' = finalized mt \<and>
    ((blocks mt = [] \<and> e = Errorf ''Failed to finalize: '' ErrEmptyMerkleTree) \<or>
     (blocks mt \<noteq> [] \<and> finalized mt \<and> e = ErrTreeAlreadyFinalized))"
  using assms by (auto simp: Finalize_eq split: if_splits)

theorem Finalize_atomic_on_failure_witness:
  "Finalize example_hash (NewMerkleTree []) =
     (Some (Errorf ''Failed to finalize: '' ErrEmptyMerkleTree), NewMerkleTree []) \<and>
   nodes (NewMerkleTree []) = [] \<and>
   Finalize example_hash example_tree = (Some ErrTreeAlreadyFinalized, example_tree) \<and>
   length (blocks example_tree) = 4"
proof -
  have a: "Finalize example_hash (NewMerkleTree []) =
     (Some (Errorf ''Failed to finalize: '' ErrEmptyMerkleTree), NewMerkleTree [])"
    by (simp add: Finalize_def NewMerkleTree_def)
  have b: "Finalize example_hash example_tree = (Some ErrTreeAlreadyFinalized, example_tree)"
    by code_simp
  have c: "length (blocks example_tree) = 4" by code_simp
  show ?thesis
    using Finalize_atomic_on_failure[OF a] Finalize_atomic_on_failure[OF b] a b c
    by (simp add: NewMerkleTree_def)
qed

section \<open>The guards of the life cycle\<close>

text \<open>
  Claim C4, as amended. Insert of a non-nil block into a finalized tree returns
  \<^verbatim>\<open>ErrTreeAlreadyFinalized\<close>, and Insert of nil returns \<^verbatim>\<open>ErrNilBlock\<close>, finalized or
  not; on a tree not finalized, RootHash returns the error made from
  \<^verbatim>\<open>ErrTreeNotFinalized\<close> under the prefix \<^verbatim>\<open>invalid root hash: \<close>, Proof of a non-nil
  block returns \<^verbatim>\<open>ErrTreeNotFinalized\<close> and Proof of nil \<^verbatim>\<open>ErrNilBlock\<close>, and Verify
  returns \<^verbatim>\<open>ErrTreeNotFinalized\<close> for every block and proof; after a Finalize that
  succeeded, Finalize returns \<^verbatim>\<open>ErrTreeAlreadyFinalized\<close>. None of these calls changes
  the tree.
\<close>

theorem lifecycle_guards:
  "(finalized mt \<and> block \<noteq> None \<longrightarrow> Insert block mt = (Some ErrTreeAlreadyFinalized, mt)) \<and>
   Insert None mt = (Some ErrNilBlock, mt) \<and>
   (\<not> finalized mt \<longrightarrow>
      RootHash mt = Inl (Errorf ''invalid root hash: '' ErrTreeNotFinalized) \<and>
      (block \<noteq> None \<longrightarrow> Proof mt block = Inl ErrTreeNotFinalized) \<and>
      Proof mt None = Inl ErrNilBlock \<and>
      Verify H mt block pr = Some ErrTreeNotFinalized) \<and>
   (Finalize H mt = (None, mt') \<longrightarrow> Finalize H mt' = (Some ErrTreeAlreadyFinalized, mt'))"
proof -
  have "Finalize H mt' = (Some ErrTreeAlreadyFinalized, mt')" if "Finalize H mt = (None, mt')"
  proof -
    note s = Finalize_success[OF that]
    have "blocks mt' \<noteq> []" "finalized mt'"
      using s(1) s(3) by (auto simp: padded_def)
    then show ?thesis by (simp add: Finalize_def)
  qed
  then show ?thesis
    by (auto simp: Insert_def RootHash_def Proof_def Verify_def)
qed

theorem lifecycle_guards_witness:
  "finalized example_tree \<and>
   Insert (Some [9]) example_tree = (Some ErrTreeAlreadyFinalized, example_tree) \<and>
   Insert None example_tree = (Some ErrNilBlock, example_tree) \<and>
   \<not> finalized (NewMerkleTree example_blocks) \<and>
   RootHash (NewMerkleTree example_blocks) = Inl (Errorf ''invalid root hash: '' ErrTreeNotFinalized) \<and>
   Proof (NewMerkleTree example_blocks) (Some [2]) = Inl ErrTreeNotFinalized \<and>
   Proof (NewMerkleTree example_blocks) None = Inl ErrNilBlock \<and>
   Verify example_hash (NewMerkleTree example_blocks) (Some [2]) [] = Some ErrTreeNotFinalized \<and>
   Finalize example_hash (NewMerkleTree example_blocks) = (None, example_tree) \<and>
   Finalize example_hash example_tree = (Some ErrTreeAlreadyFinalized, example_tree)"
proof -
  have f: "finalized example_tree" by code_simp
  have n: "\<not> finalized (NewMerkleTree example_blocks)" by (simp add: NewMerkleTree_def)
  show ?thesis
    using lifecycle_guards[of example_tree "Some [9]" example_hash "[]" example_tree]
      lifecycle_guards[of "NewMerkleTree example_blocks" "Some [2]" example_hash "[]" example_tree]
      f n example_tree_finalized
    by simp
qed

theorem lifecycle_guards_counterexample:
  "finalized example_tree \<and>
   fst (Insert None example_tree) = Some ErrNilBlock \<and>
   fst (Insert None example_tree) \<noteq> Some ErrTreeAlreadyFinalized \<and>
   \<not> finalized (NewMerkleTree example_blocks) \<and>
   Proof (NewMerkleTree example_blocks) None = Inl ErrNilBlock \<and>
   Proof (NewMerkleTree example_blocks) None \<noteq> Inl ErrTreeNotFinalized"
proof -
  have f: "finalized example_tree" by code_simp
  show ?thesis
    using f by (simp add: Insert_def Proof_def NewMerkleTree_def)
qed

section \<open>Hashing in the node-graph tree\<close>

lemma unprefixed_append:
  assumes "unprefixed calc hf h n"
  shows "unprefixed calc hf (h @ xs) n"
proof (cases "leaf n")
  case True
  then show ?thesis using assms by (simp add: unprefixed_def)
next
  case False
  then obtain l r where lr: "Left n = Some l" "Right n = Some r" "l < length h" "r < length h"
    "Hash n = Some (hf (bytes_of (Hash (h ! l)) @ bytes_of (Hash (h ! r))))"
    using assms unfolding unprefixed_def by auto
  have "(h @ xs) ! l = h ! l" "(h @ xs) ! r = h ! r" using lr(3,4) by (simp_all add: nth_append)
  then show ?thesis using False lr by (simp add: unprefixed_def)
qed

lemma unprefixed_same_Hash:
  assumes "unprefixed calc hf h n" and "length h' = length h"
    and "\<And>c. c < length h \<Longrightarrow> Hash (h' ! c) = Hash (h ! c)"
  shows "unprefixed calc hf h' n"
proof (cases "leaf n")
  case True
  then show ?thesis using assms(1) by (simp add: unprefixed_def)
next
  case False
  then obtain l r where lr: "Left n = Some l" "Right n = Some r" "l < length h" "r < length h"
    "Hash n = Some (hf (bytes_of (Hash (h ! l)) @ bytes_of (Hash (h ! r))))"
    using assms(1) unfolding unprefixed_def by auto
  have "Hash (h' ! l) = Hash (h ! l)" "Hash (h' ! r) = Hash (h ! r)" using lr(3,4) assms(3) by simp_all
  then show ?thesis using False lr assms(2) by (simp add: unprefixed_def)
qed

lemma unprefixed_Parent:
  "unprefixed calc hf h (n\<lparr>Parent := p\<rparr>) = unprefixed calc hf h n"
  by (simp add: unprefixed_def)

lemma heap_unprefixed_append:
  assumes "heap_unprefixed calc hf h" and "unprefixed calc hf (h @ [n]) n"
  shows "heap_unprefixed calc hf (h @ [n])"
  unfolding heap_unprefixed_def
proof (intro allI impI)
  fix a assume a: "a < length (h @ [n])"
  show "unprefixed calc hf (h @ [n]) ((h @ [n]) ! a)"
  proof (cases "a < length h")
    case True
    then have "unprefixed calc hf h (h ! a)" using assms(1) by (simp add: heap_unprefixed_def)
    then have "unprefixed calc hf (h @ [n]) (h ! a)"
      by (rule unprefixed_append)
    then show ?thesis using True by (simp add: nth_append)
  next
    case False
    then have "a = length h" using a by simp
    then show ?thesis using assms(2) by simp
  qed
qed

lemma heap_unprefixed_set_Parent:
  assumes "heap_unprefixed calc hf h"
  shows "heap_unprefixed calc hf (set_Parent h a p)"
  unfolding heap_unprefixed_def
proof (intro allI impI)
  fix b assume "b < length (set_Parent h a p)"
  then have b: "b < length h" by (simp add: set_Parent_def)
  have hs: "Hash (set_Parent h a p ! c) = Hash (h ! c)" if "c < length h" for c
    using that by (cases "c = a") (simp_all add: set_Parent_def)
  have ub: "unprefixed calc hf h (h ! b)" using assms b by (simp add: heap_unprefixed_def)
  have "unprefixed calc hf (set_Parent h a p) (h ! b)"
    by (rule unprefixed_same_Hash[OF ub _ hs]) (simp_all add: set_Parent_def)
  then have "unprefixed calc hf (set_Parent h a p) ((h ! b)\<lparr>Parent := Some p\<rparr>)"
    by (simp only: unprefixed_Parent)
  moreover have "set_Parent h a p ! b = (if b = a then (h ! b)\<lparr>Parent := Some p\<rparr> else h ! b)"
    using b by (simp add: set_Parent_def)
  ultimately show "unprefixed calc hf (set_Parent h a p) (set_Parent h a p ! b)"
    using \<open>unprefixed calc hf (set_Parent h a p) (h ! b)\<close> by (cases "b = a") simp_all
qed

lemma leaf_set_Parent: "c < length h \<Longrightarrow> leaf (set_Parent h a p ! c) = leaf (h ! c)"
  by (cases "c = a") (simp_all add: set_Parent_def)

lemma length_set_Parent: "length (set_Parent h a p) = length h"
  by (simp add: set_Parent_def)

text \<open>One round of the loop on a heap that holds the two nodes it pairs.\<close>

lemma buildIntermediate_loop_step:
  assumes "i < length leaves" and "\<forall>x \<in> set leaves. x < length h"
  shows "\<exists>l r. l < length h \<and> r < length h \<and>
    buildIntermediate_loop hf h leaves i nds =
      (let n = length h;
           h3 = set_Parent (set_Parent
                  (h @ [\<lparr>Left = Some l, Right = Some r, Parent = None, leaf = False, dup = False,
                          Hash = Some (hf (bytes_of (Hash (h ! l)) @ bytes_of (Hash (h ! r)))),
                          Item = None\<rparr>]) l n) r n
       in if length leaves = 2 then Inr (h3, Inl n)
          else buildIntermediate_loop hf h3 leaves (i + 2) (nds @ [n]))"
proof -
  let ?l = "leaves ! i" and ?r = "leaves ! (if i + 1 = length leaves then i else i + 1)"
  have l: "?l < length h" using assms by simp
  have "(if i + 1 = length leaves then i else i + 1) < length leaves" using assms(1) by auto
  then have r: "?r < length h" using assms(2) nth_mem by blast
  have "buildIntermediate_loop hf h leaves i nds =
      (let n = length h;
           h3 = set_Parent (set_Parent
                  (h @ [\<lparr>Left = Some ?l, Right = Some ?r, Parent = None, leaf = False, dup = False,
                          Hash = Some (hf (bytes_of (Hash (h ! ?l)) @ bytes_of (Hash (h ! ?r)))),
                          Item = None\<rparr>]) ?l n) ?r n
       in if length leaves = 2 then Inr (h3, Inl n)
          else buildIntermediate_loop hf h3 leaves (i + 2) (nds @ [n]))"
    using assms(1) l r
    by (subst buildIntermediate_loop.simps) (simp add: Let_def deref_def)
  with l r show ?thesis by blast
qed

lemma heap_unprefixed_step:
  assumes "heap_unprefixed calc hf h" and "l < length h" and "r < length h"
  shows "heap_unprefixed calc hf (set_Parent (set_Parent
                  (h @ [\<lparr>Left = Some l, Right = Some r, Parent = None, leaf = False, dup = False,
                          Hash = Some (hf (bytes_of (Hash (h ! l)) @ bytes_of (Hash (h ! r)))),
                          Item = None\<rparr>]) l n) r n)"
proof (intro heap_unprefixed_set_Parent heap_unprefixed_append)
  show "heap_unprefixed calc hf h" by (rule assms(1))
  show "unprefixed calc hf
     (h @ [\<lparr>Left = Some l, Right = Some r, Parent = None, leaf = False, dup = False,
             Hash = Some (hf (bytes_of (Hash (h ! l)) @ bytes_of (Hash (h ! r)))), Item = None\<rparr>])
     \<lparr>Left = Some l, Right = Some r, Parent = None, leaf = False, dup = False,
        Hash = Some (hf (bytes_of (Hash (h ! l)) @ bytes_of (Hash (h ! r)))), Item = None\<rparr>"
    using assms(2,3) by (simp add: unprefixed_def nth_append)
qed

lemma buildIntermediate_loop_inv:
  assumes "heap_unprefixed calc hf h" and "\<forall>x \<in> set leaves. x < length h"
    and "\<forall>x \<in> set nds. x < length h"
  shows "\<exists>h' res. buildIntermediate_loop hf h leaves i nds = Inr (h', res) \<and>
     heap_unprefixed calc hf h' \<and> length h \<le> length h' \<and>
     (case res of Inl n \<Rightarrow> n < length h' \<and> \<not> leaf (h' ! n)
      | Inr nds' \<Rightarrow> (\<forall>x \<in> set nds'. x < length h') \<and> (i < length leaves \<longrightarrow> length leaves \<noteq> 2))"
  using assms
proof (induction "length leaves - i" arbitrary: h i nds rule: less_induct)
  case less
  show ?case
  proof (cases "i < length leaves")
    case False
    then have "buildIntermediate_loop hf h leaves i nds = Inr (h, Inr nds)"
      by (subst buildIntermediate_loop.simps) simp
    then show ?thesis using less.prems False by simp
  next
    case True
    from buildIntermediate_loop_step[OF True less.prems(2), of hf nds]
    obtain l r where l: "l < length h" and r: "r < length h"
      and eq: "buildIntermediate_loop hf h leaves i nds =
      (let n = length h;
           h3 = set_Parent (set_Parent
                  (h @ [\<lparr>Left = Some l, Right = Some r, Parent = None, leaf = False, dup = False,
                          Hash = Some (hf (bytes_of (Hash (h ! l)) @ bytes_of (Hash (h ! r)))),
                          Item = None\<rparr>]) l n) r n
       in if length leaves = 2 then Inr (h3, Inl n)
          else buildIntermediate_loop hf h3 leaves (i + 2) (nds @ [n]))"
      by blast
    let ?n = "length h"
    let ?h3 = "set_Parent (set_Parent
                  (h @ [\<lparr>Left = Some l, Right = Some r, Parent = None, leaf = False, dup = False,
                          Hash = Some (hf (bytes_of (Hash (h ! l)) @ bytes_of (Hash (h ! r)))),
                          Item = None\<rparr>]) l ?n) r ?n"
    have ok3: "heap_unprefixed calc hf ?h3"
      by (rule heap_unprefixed_step[OF less.prems(1) l r])
    have len3: "length ?h3 = Suc (length h)" by (simp add: length_set_Parent)
    show ?thesis
    proof (cases "length leaves = 2")
      case two: True
      have "\<not> leaf (?h3 ! ?n)" by (simp add: leaf_set_Parent length_set_Parent)
      with two show ?thesis using eq ok3 len3 by (simp add: Let_def)
    next
      case ntwo: False
      have lv: "\<forall>x \<in> set leaves. x < length ?h3" using less.prems(2) len3 by auto
      have nv: "\<forall>x \<in> set (nds @ [?n]). x < length ?h3" using less.prems(3) len3 by auto
      have dec: "length leaves - (i + 2) < length leaves - i" using True by linarith
      from less.hyps[OF dec ok3 lv nv]
      obtain h' res where rec: "buildIntermediate_loop hf ?h3 leaves (i + 2) (nds @ [?n]) = Inr (h', res)"
        and ok': "heap_unprefixed calc hf h'" and le': "length ?h3 \<le> length h'"
        and res: "(case res of Inl n \<Rightarrow> n < length h' \<and> \<not> leaf (h' ! n)
          | Inr nds' \<Rightarrow> (\<forall>x \<in> set nds'. x < length h') \<and> (i + 2 < length leaves \<longrightarrow> length leaves \<noteq> 2))"
        by blast
      have "buildIntermediate_loop hf h leaves i nds = Inr (h', res)"
        using eq ntwo rec by (simp add: Let_def)
      moreover have "length h \<le> length h'" using le' len3 by simp
      moreover have "(case res of Inl n \<Rightarrow> n < length h' \<and> \<not> leaf (h' ! n)
          | Inr nds' \<Rightarrow> (\<forall>x \<in> set nds'. x < length h') \<and> (i < length leaves \<longrightarrow> length leaves \<noteq> 2))"
        using res ntwo by (cases res) simp_all
      ultimately show ?thesis using ok' by blast
    qed
  qed
qed

lemma buildIntermediate_inv:
  assumes "heap_unprefixed calc hf h" and "\<forall>x \<in> set leaves. x < length h"
    and "2 \<le> length leaves"
  shows "\<exists>h' r. buildIntermediate hf h leaves = Inr (h', r) \<and>
     heap_unprefixed calc hf h' \<and> length h \<le> length h' \<and> r < length h' \<and> \<not> leaf (h' ! r)"
  using assms
proof (induction "length leaves" arbitrary: h leaves rule: less_induct)
  case less
  from buildIntermediate_loop_inv[OF less.prems(1,2), of "[]" 0]
  obtain h' res where loop: "buildIntermediate_loop hf h leaves 0 [] = Inr (h', res)"
    and ok': "heap_unprefixed calc hf h'" and le': "length h \<le> length h'"
    and res: "(case res of Inl n \<Rightarrow> n < length h' \<and> \<not> leaf (h' ! n)
          | Inr nds' \<Rightarrow> (\<forall>x \<in> set nds'. x < length h') \<and> (0 < length leaves \<longrightarrow> length leaves \<noteq> 2))"
    by auto
  show ?case
  proof (cases res)
    case (Inl n)
    then have "buildIntermediate hf h leaves = Inr (h', n)"
      using loop by (subst buildIntermediate.simps) simp
    then show ?thesis using ok' le' res Inl by simp
  next
    case (Inr nds)
    have three: "3 \<le> length leaves" using res Inr less.prems(3) by auto
    have len: "length nds = (length leaves + 1) div 2"
      using buildIntermediate_loop_length[of hf h leaves 0 "[]" h' nds] loop Inr by simp
    have eq: "buildIntermediate hf h leaves = buildIntermediate hf h' nds"
      using loop Inr three by (subst buildIntermediate.simps) simp
    have "length nds < length leaves" "2 \<le> length nds" using len three by linarith+
    moreover have "\<forall>x \<in> set nds. x < length h'" using res Inr by simp
    ultimately obtain h'' r where "buildIntermediate hf h' nds = Inr (h'', r)"
      "heap_unprefixed calc hf h''" "length h' \<le> length h''" "r < length h''" "\<not> leaf (h'' ! r)"
      using less.hyps[OF _ ok'] by blast
    then show ?thesis using eq le' by auto
  qed
qed

lemma make_leaves_inv:
  assumes "heap_unprefixed calc hf h" and "\<forall>x \<in> set leaves. x < length h \<and> leaf (h ! x)"
    and "make_leaves calc h cs leaves = Inr (h', leaves')"
  shows "heap_unprefixed calc hf h' \<and> (\<forall>x \<in> set leaves'. x < length h' \<and> leaf (h' ! x)) \<and>
         length leaves' = length leaves + length cs"
  using assms
proof (induction cs arbitrary: h leaves)
  case Nil
  then show ?case by simp
next
  case (Cons c cs)
  from Cons.prems(3) obtain item hash where c: "c = Some item" and ch: "calc item = Inr hash"
    by (auto split: option.splits sum.splits)
  let ?n = "\<lparr>Left = None, Right = None, Parent = None, leaf = True, dup = False,
                       Hash = hash, Item = c\<rparr>"
  have rec: "make_leaves calc (h @ [?n]) cs (leaves @ [length h]) = Inr (h', leaves')"
    using Cons.prems(3) c ch by simp
  have ok: "heap_unprefixed calc hf (h @ [?n])"
    using Cons.prems(1) by (rule heap_unprefixed_append) (simp add: unprefixed_def c ch)
  have lv: "\<forall>x \<in> set (leaves @ [length h]). x < length (h @ [?n]) \<and> leaf ((h @ [?n]) ! x)"
    using Cons.prems(2) by (auto simp: nth_append)
  from Cons.IH[OF ok lv rec] show ?case by simp
qed

lemma make_leaves_succeeds:
  assumes "\<forall>c \<in> set cs. \<exists>item hash. c = Some item \<and> calc item = Inr hash"
  shows "\<exists>h' leaves'. make_leaves calc h cs leaves = Inr (h', leaves')"
  using assms by (induction cs arbitrary: h leaves) auto

lemma buildTree_inv:
  assumes "content \<noteq> []" and "make_leaves calc [] content [] = Inr (h1, leaves)"
  shows "\<exists>h r leaves2. buildTree calc hf [] content = Inr (h, r, leaves2) \<and>
     heap_unprefixed calc hf h \<and> r < length h \<and> \<not> leaf (h ! r)"
proof -
  have e: "heap_unprefixed calc hf ([] :: 'a heap)" by (simp add: heap_unprefixed_def)
  from make_leaves_inv[OF e _ assms(2)]
  have ok1: "heap_unprefixed calc hf h1"
    and lv1: "\<forall>x \<in> set leaves. x < length h1 \<and> leaf (h1 ! x)"
    and len1: "length leaves = length content" by simp_all
  have pos: "0 < length leaves" using assms(1) len1 by simp
  obtain h2 leaves2 where pad: "(if length leaves mod 2 = 1 then
                  (case deref h1 (leaves ! (length leaves - 1)) of
                     Inl e \<Rightarrow> Inl e
                   | Inr lst \<Rightarrow>
                      Inr (h1 @ [\<lparr>Left = None, Right = None, Parent = None, leaf = True, dup = True,
                                    Hash = Hash lst, Item = Item lst\<rparr>],
                           leaves @ [length h1]))
                else Inr (h1, leaves)) = Inr (h2, leaves2)"
    and ok2: "heap_unprefixed calc hf h2"
    and lv2: "\<forall>x \<in> set leaves2. x < length h2"
    and len2: "2 \<le> length leaves2"
  proof (cases "length leaves mod 2 = 1")
    case False
    then have "2 \<le> length leaves" using pos by presburger
    with False ok1 lv1 that[of h1 leaves] show ?thesis by auto
  next
    case True
    let ?a = "leaves ! (length leaves - 1)"
    have a: "?a \<in> set leaves" using pos by simp
    then have av: "?a < length h1" "leaf (h1 ! ?a)" using lv1 by auto
    then have "unprefixed calc hf h1 (h1 ! ?a)" using ok1 by (simp add: heap_unprefixed_def)
    then obtain item where it: "Item (h1 ! ?a) = Some item" "calc item = Inr (Hash (h1 ! ?a))"
      using av(2) by (auto simp: unprefixed_def)
    let ?d = "\<lparr>Left = None, Right = None, Parent = None, leaf = True, dup = True,
                Hash = Hash (h1 ! ?a), Item = Item (h1 ! ?a)\<rparr>"
    have "heap_unprefixed calc hf (h1 @ [?d])"
      using ok1 by (rule heap_unprefixed_append) (use it in \<open>simp add: unprefixed_def\<close>)
    moreover have "\<forall>x \<in> set (leaves @ [length h1]). x < length (h1 @ [?d])"
      using lv1 by auto
    moreover have "2 \<le> length (leaves @ [length h1])" using pos by (cases leaves) simp_all
    ultimately show ?thesis
      using True av(1) that[of "h1 @ [?d]" "leaves @ [length h1]"] by (simp add: deref_def)
  qed
  from buildIntermediate_inv[OF ok2 lv2 len2]
  obtain h r where "buildIntermediate hf h2 leaves2 = Inr (h, r)"
    "heap_unprefixed calc hf h" "r < length h" "\<not> leaf (h ! r)"
    by blast
  then show ?thesis
    unfolding buildTree_def assms(2) using pad by simp
qed

lemma NewTree_inv:
  assumes "NewTree calc hf content = Inr (t, h)"
  shows "heap_unprefixed calc hf h \<and>
    (\<exists>r < length h. Root t = Some r \<and> \<not> leaf (h ! r) \<and> merkleRoot t = Hash (h ! r))"
proof -
  have ne: "content \<noteq> []" using assms by (auto simp: NewTree_def split: if_splits)
  obtain h1 leaves where ml: "make_leaves calc [] content [] = Inr (h1, leaves)"
    using assms ne by (auto simp: NewTree_def buildTree_def split: sum.splits)
  from buildTree_inv[OF ne ml, of hf]
  obtain h' r leaves2 where bt: "buildTree calc hf [] content = Inr (h', r, leaves2)"
    and ok: "heap_unprefixed calc hf h'" and r: "r < length h'" "\<not> leaf (h' ! r)"
    by blast
  have "NewTree calc hf content =
      Inr (\<lparr>Root = Some r, merkleRoot = Hash (h' ! r), Leaves = leaves2\<rparr>, h')"
    using ne bt r by (simp add: NewTree_def deref_def)
  then have "t = \<lparr>Root = Some r, merkleRoot = Hash (h' ! r), Leaves = leaves2\<rparr>" "h = h'"
    using assms by simp_all
  then show ?thesis using ok r by simp
qed

lemma NewTree_succeeds:
  assumes "content \<noteq> []"
    and "\<forall>c \<in> set content. \<exists>item hash. c = Some item \<and> calc item = Inr hash"
  shows "\<exists>t h. NewTree calc hf content = Inr (t, h)"
proof -
  obtain h1 leaves where ml: "make_leaves calc [] content [] = Inr (h1, leaves)"
    using make_leaves_succeeds[OF assms(2)] by blast
  from buildTree_inv[OF assms(1) ml, of hf]
  obtain h' r leaves2 where "buildTree calc hf [] content = Inr (h', r, leaves2)" "r < length h'"
    by blast
  then show ?thesis using assms(1) by (simp add: NewTree_def deref_def)
qed

text \<open>
  Claim C8. In every tree that \<^verbatim>\<open>NewTree\<close> returns, the hash of a leaf node is what
  \<^verbatim>\<open>CalculateHash\<close> returns for its item, and the hash of every other node is the
  digest of the hash of its left child followed by the hash of its right child, with
  nothing before them; the root is such a node and \<^verbatim>\<open>MerkleRoot\<close> is its hash.
  \<^verbatim>\<open>NewTree\<close> returns a tree for any contents that are not empty and whose items all
  have a hash. The flat tree, for comparison, hashes \<open>0x00\<close> before a block and \<open>0x01\<close>
  before the two children.
\<close>

theorem NewTree_hashes_without_prefix:
  "(\<forall>t h. NewTree calc hf content = Inr (t, h) \<longrightarrow>
      (\<forall>a < length h.
         if leaf (h ! a)
         then (\<exists>item. Item (h ! a) = Some item \<and> calc item = Inr (Hash (h ! a)))
         else (\<exists>l r. Left (h ! a) = Some l \<and> Right (h ! a) = Some r \<and>
                 l < length h \<and> r < length h \<and>
                 Hash (h ! a) = Some (hf (bytes_of (Hash (h ! l)) @ bytes_of (Hash (h ! r)))))) \<and>
      (\<exists>r < length h. Root t = Some r \<and> \<not> leaf (h ! r) \<and> MerkleRoot t = Hash (h ! r))) \<and>
   (content \<noteq> [] \<and> (\<forall>c \<in> set content. \<exists>item hash. c = Some item \<and> calc item = Inr hash)
      \<longrightarrow> (\<exists>t h. NewTree calc hf content = Inr (t, h))) \<and>
   hashNode H d False = Some (H (0 # d)) \<and> hashNode H d True = Some (H (1 # d))"
proof -
  have "(\<forall>a < length h.
         if leaf (h ! a)
         then (\<exists>item. Item (h ! a) = Some item \<and> calc item = Inr (Hash (h ! a)))
         else (\<exists>l r. Left (h ! a) = Some l \<and> Right (h ! a) = Some r \<and>
                 l < length h \<and> r < length h \<and>
                 Hash (h ! a) = Some (hf (bytes_of (Hash (h ! l)) @ bytes_of (Hash (h ! r)))))) \<and>
      (\<exists>r < length h. Root t = Some r \<and> \<not> leaf (h ! r) \<and> MerkleRoot t = Hash (h ! r))"
    if "NewTree calc hf content = Inr (t, h)" for t h
    using NewTree_inv[OF that]
    unfolding heap_unprefixed_def unprefixed_def MerkleRoot_def .
  moreover have "\<exists>t h. NewTree calc hf content = Inr (t, h)"
    if "content \<noteq> [] \<and> (\<forall>c \<in> set content. \<exists>item hash. c = Some item \<and> calc item = Inr hash)"
    using NewTree_succeeds[of content calc hf] that by blast
  moreover have "hashNode H d False = Some (H (0 # d))" "hashNode H d True = Some (H (1 # d))"
    by (simp_all add: hashNode_def)
  ultimately show ?thesis by blast
qed

theorem NewTree_hashes_without_prefix_witness:
  "NewTree example_calc example_hash [Some 1, Some 2, Some 3] =
     Inr (\<lparr>Root = Some 6, merkleRoot = Some [1, 2, 3, 3], Leaves = [0, 1, 2, 3]\<rparr>,
      [\<lparr>Left = None, Right = None, Parent = Some 4, leaf = True, dup = False, Hash = Some [1], Item = Some 1\<rparr>,
       \<lparr>Left = None, Right = None, Parent = Some 4, leaf = True, dup = False, Hash = Some [2], Item = Some 2\<rparr>,
       \<lparr>Left = None, Right = None, Parent = Some 5, leaf = True, dup = False, Hash = Some [3], Item = Some 3\<rparr>,
       \<lparr>Left = None, Right = None, Parent = Some 5, leaf = True, dup = True, Hash = Some [3], Item = Some 3\<rparr>,
       \<lparr>Left = Some 0, Right = Some 1, Parent = Some 6, leaf = False, dup = False, Hash = Some [1, 2], Item = None\<rparr>,
       \<lparr>Left = Some 2, Right = Some 3, Parent = Some 6, leaf = False, dup = False, Hash = Some [3, 3], Item = None\<rparr>,
       \<lparr>Left = Some 4, Right = Some 5, Parent = None, leaf = False, dup = False, Hash = Some [1, 2, 3, 3], Item = None\<rparr>]) \<and>
   (\<exists>t h. NewTree example_calc example_hash [Some 1, Some 2, Some 3] = Inr (t, h) \<and>
      (\<exists>r < length h. Root t = Some r \<and> \<not> leaf (h ! r) \<and> MerkleRoot t = Hash (h ! r)))"
proof -
  have v: "NewTree example_calc example_hash [Some 1, Some 2, Some 3] =
     Inr (\<lparr>Root = Some 6, merkleRoot = Some [1, 2, 3, 3], Leaves = [0, 1, 2, 3]\<rparr>,
      [\<lparr>Left = None, Right = None, Parent = Some 4, leaf = True, dup = False, Hash = Some [1], Item = Some 1\<rparr>,
       \<lparr>Left = None, Right = None, Parent = Some 4, leaf = True, dup = False, Hash = Some [2], Item = Some 2\<rparr>,
       \<lparr>Left = None, Right = None, Parent = Some 5, leaf = True, dup = False, Hash = Some [3], Item = Some 3\<rparr>,
       \<lparr>Left = None, Right = None, Parent = Some 5, leaf = True, dup = True, Hash = Some [3], Item = Some 3\<rparr>,
       \<lparr>Left = Some 0, Right = Some 1, Parent = Some 6, leaf = False, dup = False, Hash = Some [1, 2], Item = None\<rparr>,
       \<lparr>Left = Some 2, Right = Some 3, Parent = Some 6, leaf = False, dup = False, Hash = Some [3, 3], Item = None\<rparr>,
       \<lparr>Left = Some 4, Right = Some 5, Parent = None, leaf = False, dup = False, Hash = Some [1, 2, 3, 3], Item = None\<rparr>])"
    by code_simp
  have c: "[Some (1::byte), Some 2, Some 3] \<noteq> [] \<and>
    (\<forall>c \<in> set [Some (1::byte), Some 2, Some 3]. \<exists>item hash. c = Some item \<and> example_calc item = Inr hash)"
    by (simp add: example_calc_def)
  note t = NewTree_hashes_without_prefix[of example_calc example_hash "[Some 1, Some 2, Some 3]"]
  from t c obtain t0 h0 where ex: "NewTree example_calc example_hash [Some 1, Some 2, Some 3] = Inr (t0, h0)"
    by blast
  with t have "\<exists>r < length h0. Root t0 = Some r \<and> \<not> leaf (h0 ! r) \<and> MerkleRoot t0 = Hash (h0 ! r)"
    by blast
  with ex v show ?thesis by blast
qed

end
